theory Spec2Isabelle
  imports Main "HOL-Library.Word" "HOL-Library.Monad_Syntax"
begin

section \<open>Fire2012Rainbow: the heat grid of the fire effect\<close>

text \<open>
  The function \<^verbatim>\<open>Fire2012Rainbow\<close> of \<^verbatim>\<open>Fire2012Rainbow.h\<close> owns a static array
  \<^verbatim>\<open>byte heat[MATRIX_WIDTH][MATRIX_HEIGHT]\<close> and, for every column, cools it, lets the heat
  drift upwards, sometimes ignites a spark near the bottom, and renders the column into
  \<^verbatim>\<open>leds\<close>. The file does not declare \<^verbatim>\<open>MATRIX_WIDTH\<close>, \<^verbatim>\<open>MATRIX_HEIGHT\<close>,
  \<^verbatim>\<open>XY\<close>, \<^verbatim>\<open>scale8\<close>, the palette or the random generator: they are fields of the
  environment below. The two tunables \<^verbatim>\<open>COOLINGRainbow\<close> (150 in the file) and
  \<^verbatim>\<open>SPARKINGRainbow\<close> (60 in the file) are fields as well, so that the behaviour can be
  stated for every setting.
\<close>

subsection \<open>Data\<close>

type_synonym byte = "8 word"

record 'c env =
  MATRIX_WIDTH :: nat
  MATRIX_HEIGHT :: nat
  COOLINGRainbow :: nat
  SPARKINGRainbow :: nat
  XY :: "nat \<Rightarrow> nat \<Rightarrow> nat"
  scale8 :: "byte \<Rightarrow> byte \<Rightarrow> byte"
  ColorFromPalette :: "byte \<Rightarrow> 'c"
  entropy :: "nat \<Rightarrow> nat"

text \<open>
  \<open>ColorFromPalette e i\<close> stands for \<^verbatim>\<open>ColorFromPalette(LavaColors_p, i)\<close>, and
  \<open>entropy e n\<close> is the \<open>n\<close>-th raw output of the random generator.

  The state the function works on: the heat array, indexed \<open>heat s x y\<close> for
  \<^verbatim>\<open>heat[x][y]\<close>; the frame buffer, kept as the sequence of assignments
  \<^verbatim>\<open>leds[i] = c\<close> made so far (the function only ever writes to it); and the number of raw
  outputs the random generator has handed out.
\<close>

record 'c state =
  heat :: "nat \<Rightarrow> nat \<Rightarrow> byte"
  leds :: "(nat \<times> 'c) list"
  rand_pos :: nat

text \<open>The array is static, so it starts out as zeros.\<close>

definition zero_heat :: "nat \<Rightarrow> nat \<Rightarrow> byte" where
  "zero_heat = (\<lambda>x y. 0)"

subsection \<open>Array accesses\<close>

text \<open>
  An access \<^verbatim>\<open>heat[x][y]\<close> is defined only inside the declared bounds; \<open>None\<close> is an
  access outside them. Row indices are \<^verbatim>\<open>int\<close> in the source.
\<close>

definition in_bounds :: "'c env \<Rightarrow> nat \<Rightarrow> int \<Rightarrow> bool" where
  "in_bounds e x y \<longleftrightarrow> x < MATRIX_WIDTH e \<and> 0 \<le> y \<and> y < int (MATRIX_HEIGHT e)"

definition heat_get :: "'c env \<Rightarrow> (nat \<Rightarrow> nat \<Rightarrow> byte) \<Rightarrow> nat \<Rightarrow> int \<Rightarrow> byte option" where
  "heat_get e h x y = (if in_bounds e x y then Some (h x (nat y)) else None)"

definition heat_set ::
  "'c env \<Rightarrow> (nat \<Rightarrow> nat \<Rightarrow> byte) \<Rightarrow> nat \<Rightarrow> int \<Rightarrow> byte \<Rightarrow> (nat \<Rightarrow> nat \<Rightarrow> byte) option" where
  "heat_set e h x y v =
     (if in_bounds e x y then Some (h(x := (h x)(nat y := v))) else None)"

subsection \<open>The library primitives\<close>

text \<open>
  Modelled from the spec: \<^verbatim>\<open>qsub8\<close> and \<^verbatim>\<open>qadd8\<close> are not defined in this file. The
  spec gives them as \<open>saturatingSubtract(u8,u8) -> u8\<close> and \<open>saturatingAdd(u8,u8) -> u8\<close>,
  which clamp to \<open>[0,255]\<close>: both operands and the result are bytes.
\<close>

definition qsub8 :: "byte \<Rightarrow> byte \<Rightarrow> byte" where
  "qsub8 a b = (if unat a < unat b then 0 else of_nat (unat a - unat b))"

definition qadd8 :: "byte \<Rightarrow> byte \<Rightarrow> byte" where
  "qadd8 a b = (if 255 < unat a + unat b then 255 else of_nat (unat a + unat b))"

text \<open>
  Modelled from the spec: \<^verbatim>\<open>random8\<close> is not defined in this file. The spec gives
  \<^verbatim>\<open>random8()\<close> as a byte in \<open>[0,255)\<close> and \<^verbatim>\<open>random8(lim)\<close>, \<^verbatim>\<open>random8(min,lim)\<close> as
  draws with inclusive lower and exclusive upper bound. It is the 8-bit generator: its result
  is the byte that \<^verbatim>\<open>qsub8\<close> and \<^verbatim>\<open>qadd8\<close> take as their second operand, and its bounds are
  bytes as well, so an \<^verbatim>\<open>int\<close> bound is reduced modulo 256 by the call. Each call takes the
  next raw output of the generator and reduces it into the range; every value of the range is
  reached by some raw output. How likely a value is lies outside this model. The spec says
  nothing about an empty range; there the lower bound is returned.
\<close>

definition draw :: "byte \<Rightarrow> byte \<Rightarrow> nat \<Rightarrow> byte" where
  "draw lo hi raw =
     (if lo < hi then of_nat (unat lo + raw mod (unat hi - unat lo)) else lo)"

definition random8 :: "'c env \<Rightarrow> 'c state \<Rightarrow> byte \<times> 'c state" where
  "random8 e s = (draw 0 255 (entropy e (rand_pos s)), s\<lparr>rand_pos := Suc (rand_pos s)\<rparr>)"

definition random8_lim :: "'c env \<Rightarrow> byte \<Rightarrow> 'c state \<Rightarrow> byte \<times> 'c state" where
  "random8_lim e lim s =
     (draw 0 lim (entropy e (rand_pos s)), s\<lparr>rand_pos := Suc (rand_pos s)\<rparr>)"

definition random8_range :: "'c env \<Rightarrow> byte \<Rightarrow> byte \<Rightarrow> 'c state \<Rightarrow> byte \<times> 'c state" where
  "random8_range e lo hi s =
     (draw lo hi (entropy e (rand_pos s)), s\<lparr>rand_pos := Suc (rand_pos s)\<rparr>)"

subsection \<open>The four steps on one column\<close>

text \<open>
  The bound the cooling call computes, \<^verbatim>\<open>((COOLINGRainbow * 10) / MATRIX_HEIGHT) + 2\<close>, as
  the \<^verbatim>\<open>int\<close> it is. Passing it to \<^verbatim>\<open>random8\<close> converts it to a byte.
\<close>

definition cooling_lim :: "'c env \<Rightarrow> nat" where
  "cooling_lim e = (COOLINGRainbow e * 10) div MATRIX_HEIGHT e + 2"

text \<open>Step 1: \<^verbatim>\<open>for (int i = 0; i < MATRIX_HEIGHT; i++) heat[x][i] = qsub8(heat[x][i], random8(0, ...));\<close>\<close>

function cool :: "'c env \<Rightarrow> nat \<Rightarrow> nat \<Rightarrow> 'c state \<Rightarrow> 'c state option" where
  "cool e x i s =
     (if i < MATRIX_HEIGHT e then
        do {
          v \<leftarrow> heat_get e (heat s) x (int i);
          let (d, s1) = random8_range e 0 (of_nat (cooling_lim e)) s;
          h \<leftarrow> heat_set e (heat s1) x (int i) (qsub8 v d);
          cool e x (Suc i) (s1\<lparr>heat := h\<rparr>)
        }
      else Some s)"
  by pat_completeness auto
termination
  by (relation "measure (\<lambda>(e, x, i, s). MATRIX_HEIGHT e - i)") auto

declare cool.simps [simp del]

text \<open>
  Step 2: \<^verbatim>\<open>for (int k = MATRIX_HEIGHT - 1; k >= 2; k--)
  heat[x][k] = (heat[x][k - 1] + heat[x][k - 2] + heat[x][k - 2]) / 3;\<close>
  The bytes are promoted to \<^verbatim>\<open>int\<close>, added and divided there, and the quotient is
  converted back to a byte by the assignment.
\<close>

definition drift :: "byte \<Rightarrow> byte \<Rightarrow> byte \<Rightarrow> byte" where
  "drift a b c = of_nat ((unat a + unat b + unat c) div 3)"

function diffuse :: "'c env \<Rightarrow> nat \<Rightarrow> int \<Rightarrow> 'c state \<Rightarrow> 'c state option" where
  "diffuse e x k s =
     (if 2 \<le> k then
        do {
          a \<leftarrow> heat_get e (heat s) x (k - 1);
          b \<leftarrow> heat_get e (heat s) x (k - 2);
          c \<leftarrow> heat_get e (heat s) x (k - 2);
          h \<leftarrow> heat_set e (heat s) x k (drift a b c);
          diffuse e x (k - 1) (s\<lparr>heat := h\<rparr>)
        }
      else Some s)"
  by pat_completeness auto
termination
  by (relation "measure (\<lambda>(e, x, k, s). nat k)") auto

declare diffuse.simps [simp del]

text \<open>
  Step 3: \<^verbatim>\<open>if (random8() < SPARKINGRainbow) { int y = random8(2);
  heat[x][y] = qadd8(heat[x][y], random8(160, 255)); }\<close>
\<close>

definition ignite :: "'c env \<Rightarrow> nat \<Rightarrow> 'c state \<Rightarrow> 'c state option" where
  "ignite e x s =
     (let (r, s1) = random8 e s in
      if unat r < SPARKINGRainbow e then
        (let (y, s2) = random8_lim e 2 s1 in
         do {
           v \<leftarrow> heat_get e (heat s2) x (uint y);
           let (d, s3) = random8_range e 160 255 s2;
           h \<leftarrow> heat_set e (heat s3) x (uint y) (qadd8 v d);
           Some (s3\<lparr>heat := h\<rparr>)
         })
      else Some s1)"

text \<open>
  Step 4: \<^verbatim>\<open>for (int j = 0; j < MATRIX_HEIGHT; j++) { byte colorindex = scale8(heat[x][j], 160);
  leds[XY(x, (MATRIX_HEIGHT - 1) - j)] = ColorFromPalette(LavaColors_p, colorindex); }\<close>
\<close>

function render :: "'c env \<Rightarrow> nat \<Rightarrow> nat \<Rightarrow> 'c state \<Rightarrow> 'c state option" where
  "render e x j s =
     (if j < MATRIX_HEIGHT e then
        do {
          v \<leftarrow> heat_get e (heat s) x (int j);
          let colorindex = scale8 e v 160;
          render e x (Suc j)
            (s\<lparr>leds := leds s @
                 [(XY e x ((MATRIX_HEIGHT e - 1) - j), ColorFromPalette e colorindex)]\<rparr>)
        }
      else Some s)"
  by pat_completeness auto
termination
  by (relation "measure (\<lambda>(e, x, j, s). MATRIX_HEIGHT e - j)") auto

declare render.simps [simp del]

text \<open>The body of the loop over the columns.\<close>

definition column :: "'c env \<Rightarrow> nat \<Rightarrow> 'c state \<Rightarrow> 'c state option" where
  "column e x s =
     do {
       s1 \<leftarrow> cool e x 0 s;
       s2 \<leftarrow> diffuse e x (int (MATRIX_HEIGHT e) - 1) s1;
       s3 \<leftarrow> ignite e x s2;
       render e x 0 s3
     }"

subsection \<open>The frame\<close>

text \<open>
  \<^verbatim>\<open>for (uint8_t x = 0; x < MATRIX_WIDTH; x++)\<close>: the counter is a byte and \<^verbatim>\<open>x++\<close>
  wraps from 255 to 0, so the loop is a partial function; \<open>None\<close> is a run that makes an
  access out of bounds or never leaves the loop.
\<close>

partial_function (option) columns :: "'c env \<Rightarrow> byte \<Rightarrow> 'c state \<Rightarrow> 'c state option" where
  "columns e x s =
     (if unat x < MATRIX_WIDTH e then
        do {
          s' \<leftarrow> column e (unat x) s;
          columns e (x + 1) s'
        }
      else Some s)"

declare columns.simps [code]

text \<open>The function returns the delay 15 as a \<^verbatim>\<open>uint16_t\<close>.\<close>

definition Fire2012Rainbow :: "'c env \<Rightarrow> 'c state \<Rightarrow> (16 word \<times> 'c state) option" where
  "Fire2012Rainbow e s = do { s' \<leftarrow> columns e 0 s; Some (15, s') }"

text \<open>\<open>n\<close> calls, one after the other.\<close>

fun frames :: "'c env \<Rightarrow> nat \<Rightarrow> 'c state \<Rightarrow> 'c state option" where
  "frames e 0 s = Some s"
| "frames e (Suc n) s = do { (d, s') \<leftarrow> Fire2012Rainbow e s; frames e n s' }"

subsection \<open>What the rendering step is expected to write\<close>

text \<open>
  The spec's account of step 4, for comparison with \<open>render\<close>: for every row \<open>j\<close> of column
  \<open>x\<close>, the pixel at the index of column \<open>x\<close> and the flipped row receives the palette colour
  of the heat scaled by 160.
\<close>

definition palette_pixels :: "'c env \<Rightarrow> (nat \<Rightarrow> nat \<Rightarrow> byte) \<Rightarrow> nat \<Rightarrow> (nat \<times> 'c) list" where
  "palette_pixels e h x =
     map (\<lambda>j. (XY e x ((MATRIX_HEIGHT e - 1) - j), ColorFromPalette e (scale8 e (h x j) 160)))
       [0..<MATRIX_HEIGHT e]"

subsection \<open>The result of a column and of a frame, written out\<close>

text \<open>
  The values the four steps leave behind, as functions of the state before the column. They
  are not part of the program; the lemmas below show that the program computes them.
  \<open>cooled\<close> is a cell after step 1, \<open>drifted\<close> after step 2, \<open>sparked\<close> after step 3.
  The decision byte of step 3 is the draw after the \<open>MATRIX_HEIGHT\<close> cooling draws, the row
  and the amount are the two draws after it.
\<close>

definition cooled :: "'c env \<Rightarrow> 'c state \<Rightarrow> nat \<Rightarrow> nat \<Rightarrow> byte" where
  "cooled e s x y =
     qsub8 (heat s x y) (draw 0 (of_nat (cooling_lim e)) (entropy e (rand_pos s + y)))"

definition drifted :: "'c env \<Rightarrow> 'c state \<Rightarrow> nat \<Rightarrow> nat \<Rightarrow> byte" where
  "drifted e s x y =
     (if y < MATRIX_HEIGHT e then
        (if 2 \<le> y then
           drift (cooled e s x (y - 1)) (cooled e s x (y - 2)) (cooled e s x (y - 2))
         else cooled e s x y)
      else heat s x y)"

definition spark_taken :: "'c env \<Rightarrow> 'c state \<Rightarrow> bool" where
  "spark_taken e s \<longleftrightarrow>
     unat (draw 0 255 (entropy e (rand_pos s + MATRIX_HEIGHT e))) < SPARKINGRainbow e"

definition spark_row :: "'c env \<Rightarrow> 'c state \<Rightarrow> nat" where
  "spark_row e s = unat (draw 0 2 (entropy e (rand_pos s + MATRIX_HEIGHT e + 1)))"

definition spark_heat :: "'c env \<Rightarrow> 'c state \<Rightarrow> byte" where
  "spark_heat e s = draw 160 255 (entropy e (rand_pos s + MATRIX_HEIGHT e + 2))"

definition sparked :: "'c env \<Rightarrow> 'c state \<Rightarrow> nat \<Rightarrow> nat \<Rightarrow> byte" where
  "sparked e s x =
     (if spark_taken e s then
        (drifted e s x)(spark_row e s := qadd8 (drifted e s x (spark_row e s)) (spark_heat e s))
      else drifted e s x)"

definition draws_used :: "'c env \<Rightarrow> 'c state \<Rightarrow> nat" where
  "draws_used e s = MATRIX_HEIGHT e + (if spark_taken e s then 3 else 1)"

definition column_done :: "'c env \<Rightarrow> nat \<Rightarrow> 'c state \<Rightarrow> 'c state" where
  "column_done e x s =
     s\<lparr>heat := (heat s)(x := sparked e s x),
       leds := leds s @ palette_pixels e ((heat s)(x := sparked e s x)) x,
       rand_pos := rand_pos s + draws_used e s\<rparr>"

fun columns_done :: "'c env \<Rightarrow> nat \<Rightarrow> 'c state \<Rightarrow> 'c state" where
  "columns_done e 0 s = s"
| "columns_done e (Suc n) s = column_done e n (columns_done e n s)"

fun frames_done :: "'c env \<Rightarrow> nat \<Rightarrow> 'c state \<Rightarrow> 'c state" where
  "frames_done e 0 s = s"
| "frames_done e (Suc n) s = frames_done e n (columns_done e (MATRIX_WIDTH e) s)"

subsection \<open>A concrete matrix\<close>

text \<open>
  An environment with a row-by-row \<open>XY\<close>, the spec's proportional scaling and the colour
  index itself as colour, and a state whose columns hold 200, 100, 50 from the bottom.
\<close>

definition test_env :: "nat \<Rightarrow> nat \<Rightarrow> nat \<Rightarrow> nat \<Rightarrow> (nat \<Rightarrow> nat) \<Rightarrow> byte env" where
  "test_env w h c sp raw =
     \<lparr>MATRIX_WIDTH = w, MATRIX_HEIGHT = h, COOLINGRainbow = c, SPARKINGRainbow = sp,
      XY = (\<lambda>x y. x * h + y),
      scale8 = (\<lambda>v m. of_nat (unat v * unat m div 255)),
      ColorFromPalette = (\<lambda>i. i),
      entropy = raw\<rparr>"

definition test_state :: "byte state" where
  "test_state = \<lparr>heat = (\<lambda>x. (\<lambda>y. 0)(0 := 200, 1 := 100, 2 := 50)), leds = [], rand_pos = 0\<rparr>"

section \<open>Properties\<close>

subsection \<open>Bytes and draws\<close>

lemma unat_byte_of_nat: "n < 256 \<Longrightarrow> unat (of_nat n :: byte) = n"
  by (simp add: unat_of_nat)

lemma unat_byte_lt: "unat (a :: byte) < 256"
proof -
  have "unat a < 2 ^ LENGTH(8)" by (rule unsigned_less)
  then show ?thesis by simp
qed

lemma unat_qsub8: "unat (qsub8 a b) = unat a - unat b"
proof (cases "unat a < unat b")
  case True
  then show ?thesis by (simp add: qsub8_def)
next
  case False
  have "unat a - unat b < 256" using unat_byte_lt [of a] by simp
  then have "unat (of_nat (unat a - unat b) :: byte) = unat a - unat b"
    by (rule unat_byte_of_nat)
  with False show ?thesis by (simp only: qsub8_def if_False)
qed

lemma unat_qadd8: "unat (qadd8 a b) = min 255 (unat a + unat b)"
proof (cases "255 < unat a + unat b")
  case True
  then show ?thesis by (simp add: qadd8_def)
next
  case False
  then have "unat a + unat b < 256" by simp
  then have "unat (of_nat (unat a + unat b) :: byte) = unat a + unat b"
    by (rule unat_byte_of_nat)
  moreover from False have "min 255 (unat a + unat b) = unat a + unat b" by simp
  ultimately show ?thesis using False by (simp only: qadd8_def if_False)
qed

lemma unat_drift: "unat (drift a b c) = (unat a + unat b + unat c) div 3"
proof -
  have "(unat a + unat b + unat c) div 3 < 256" 
    using unat_byte_lt [of a] unat_byte_lt [of b] unat_byte_lt [of c] by simp
  then show ?thesis unfolding drift_def by (simp only: unat_byte_of_nat)
qed

lemma uint_qsub8: "uint (qsub8 a b) = max 0 (uint a - uint b)"
proof -
  have g: "int (m - n) = max 0 (int m - int n)" for m n :: nat by arith
  have "uint (qsub8 a b) = int (unat (qsub8 a b))" by simp
  also have "\<dots> = int (unat a - unat b)" by (simp only: unat_qsub8)
  also have "\<dots> = max 0 (int (unat a) - int (unat b))" by (rule g)
  finally show ?thesis by simp
qed

lemma uint_qadd8: "uint (qadd8 a b) = min 255 (uint a + uint b)"
proof -
  have g: "int (min 255 (m + n)) = min 255 (int m + int n)" for m n :: nat by arith
  have "uint (qadd8 a b) = int (unat (qadd8 a b))" by simp
  also have "\<dots> = int (min 255 (unat a + unat b))" by (simp only: unat_qadd8)
  also have "\<dots> = min 255 (int (unat a) + int (unat b))" by (rule g)
  finally show ?thesis by simp
qed

lemma uint_drift: "uint (drift a b c) = (uint a + uint b + uint c) div 3"
proof -
  have "uint (drift a b c) = int (unat (drift a b c))" by simp
  also have "\<dots> = int ((unat a + unat b + unat c) div 3)" by (simp only: unat_drift)
  also have "\<dots> = (int (unat a) + int (unat b) + int (unat c)) div 3"
    by (simp only: zdiv_int of_nat_add of_nat_numeral)
  finally show ?thesis by simp
qed

lemma qsub8_zero: "qsub8 a 0 = a"
  by (simp add: qsub8_def)

lemma unat_draw:
  assumes "lo < hi"
  shows "unat (draw lo hi raw) = unat lo + raw mod (unat hi - unat lo)"
proof -
  from assms have lt: "unat lo < unat hi" by (simp add: word_less_nat_alt)
  then have "raw mod (unat hi - unat lo) < unat hi - unat lo" by simp
  then have "unat lo + raw mod (unat hi - unat lo) < unat hi" by arith
  with unat_byte_lt [of hi] have "unat lo + raw mod (unat hi - unat lo) < 256" by arith
  then have "unat (of_nat (unat lo + raw mod (unat hi - unat lo)) :: byte) =
      unat lo + raw mod (unat hi - unat lo)"
    by (rule unat_byte_of_nat)
  with assms show ?thesis unfolding draw_def by simp
qed

lemma draw_range:
  assumes "lo < hi"
  shows "unat lo \<le> unat (draw lo hi raw) \<and> unat (draw lo hi raw) < unat hi"
proof -
  from assms have "unat lo < unat hi" by (simp add: word_less_nat_alt)
  then have "raw mod (unat hi - unat lo) < unat hi - unat lo" by simp
  then show ?thesis unfolding unat_draw [OF assms] by arith
qed

lemma draw_onto:
  assumes "lo < hi" and "unat lo \<le> v" and "v < unat hi"
  shows "unat (draw lo hi (v - unat lo)) = v"
  using assms(2,3) unfolding unat_draw [OF assms(1)] by simp

lemma draw_decision: "unat (draw 0 255 raw) < 255"
  using draw_range [of 0 255 raw] by simp

lemma draw_row: "unat (draw 0 2 raw) < 2"
  using draw_range [of 0 2 raw] by simp

lemma draw_amount: "160 \<le> unat (draw 160 255 raw) \<and> unat (draw 160 255 raw) < 255"
  using draw_range [of 160 255 raw] by simp

subsection \<open>The loops in closed form\<close>

lemma cool_done: "MATRIX_HEIGHT e \<le> i \<Longrightarrow> cool e x i s = Some s"
  by (subst cool.simps) simp

lemma diffuse_done: "k < 2 \<Longrightarrow> diffuse e x k s = Some s"
  by (subst diffuse.simps) simp

lemma render_done: "MATRIX_HEIGHT e \<le> j \<Longrightarrow> render e x j s = Some s"
  by (subst render.simps) simp

lemma diffuse_step:
  assumes "x < MATRIX_WIDTH e" and "2 \<le> k" and "k < int (MATRIX_HEIGHT e)"
  shows "diffuse e x k t =
    diffuse e x (k - 1)
      (t\<lparr>heat := (heat t)(x := (heat t x)(nat k :=
           drift (heat t x (nat (k - 1))) (heat t x (nat (k - 2))) (heat t x (nat (k - 2)))))\<rparr>)"
  using assms by (subst diffuse.simps) (simp add: heat_get_def heat_set_def in_bounds_def)

lemma cool_from:
  assumes "x < MATRIX_WIDTH e"
  shows "cool e x i s = Some (s\<lparr>heat := (heat s)(x := \<lambda>y. if i \<le> y \<and> y < MATRIX_HEIGHT e
            then qsub8 (heat s x y) (draw 0 (of_nat (cooling_lim e)) (entropy e (rand_pos s + (y - i))))
            else heat s x y),
          rand_pos := rand_pos s + (MATRIX_HEIGHT e - i)\<rparr>)"
proof (induction "MATRIX_HEIGHT e - i" arbitrary: i s)
  case 0
  then have "(\<lambda>y. if i \<le> y \<and> y < MATRIX_HEIGHT e
            then qsub8 (heat s x y) (draw 0 (of_nat (cooling_lim e)) (entropy e (rand_pos s + (y - i))))
            else heat s x y) = heat s x"
    by (auto simp add: fun_eq_iff)
  with 0 show ?case by (simp add: cool_done)
next
  case (Suc n)
  then have lt: "i < MATRIX_HEIGHT e" and n: "n = MATRIX_HEIGHT e - Suc i" by auto
  let ?d = "draw 0 (of_nat (cooling_lim e)) (entropy e (rand_pos s))"
  let ?s1 = "s\<lparr>rand_pos := Suc (rand_pos s), heat := (heat s)(x := (heat s x)(i := qsub8 (heat s x i) ?d))\<rparr>"
  have step: "cool e x i s = cool e x (Suc i) ?s1"
    by (subst cool.simps)
      (simp add: lt heat_get_def heat_set_def in_bounds_def assms random8_range_def)
  have feq: "(heat ?s1)(x := \<lambda>y. if Suc i \<le> y \<and> y < MATRIX_HEIGHT e
            then qsub8 (heat ?s1 x y) (draw 0 (of_nat (cooling_lim e)) (entropy e (rand_pos ?s1 + (y - Suc i))))
            else heat ?s1 x y)
      = (heat s)(x := \<lambda>y. if i \<le> y \<and> y < MATRIX_HEIGHT e
            then qsub8 (heat s x y) (draw 0 (of_nat (cooling_lim e)) (entropy e (rand_pos s + (y - i))))
            else heat s x y)"
    using lt by (auto simp add: fun_eq_iff Suc_diff_Suc)
  have "rand_pos ?s1 + (MATRIX_HEIGHT e - Suc i) = rand_pos s + (MATRIX_HEIGHT e - i)"
    using lt by simp
  with feq show ?case
    unfolding step Suc.hyps(1)[OF n] by simp
qed

lemma diffuse_from:
  assumes "x < MATRIX_WIDTH e" "k < int (MATRIX_HEIGHT e)"
  shows "diffuse e x k s = Some (s\<lparr>heat := (heat s)(x := \<lambda>y. if 2 \<le> y \<and> int y \<le> k
            then drift (heat s x (y - 1)) (heat s x (y - 2)) (heat s x (y - 2))
            else heat s x y)\<rparr>)"
  using assms(2)
proof (induction "nat k" arbitrary: k s)
  case 0
  then have "(\<lambda>y. if 2 \<le> y \<and> int y \<le> k
            then drift (heat s x (y - 1)) (heat s x (y - 2)) (heat s x (y - 2))
            else heat s x y) = heat s x"
    by (auto simp add: fun_eq_iff)
  with 0 show ?case by (simp add: diffuse_done)
next
  case (Suc n)
  show ?case
  proof (cases "2 \<le> k")
    case False
    then have "(\<lambda>y. if 2 \<le> y \<and> int y \<le> k
            then drift (heat s x (y - 1)) (heat s x (y - 2)) (heat s x (y - 2))
            else heat s x y) = heat s x"
      by (auto simp add: fun_eq_iff)
    with False show ?thesis by (simp add: diffuse_done)
  next
    case True
    have n: "n = nat (k - 1)" using Suc.hyps(2) by simp
    have lt: "k - 1 < int (MATRIX_HEIGHT e)" using Suc.prems by simp
    let ?v = "drift (heat s x (nat (k - 1))) (heat s x (nat (k - 2))) (heat s x (nat (k - 2)))"
    let ?s1 = "s\<lparr>heat := (heat s)(x := (heat s x)(nat k := ?v))\<rparr>"
    have step: "diffuse e x k s = diffuse e x (k - 1) ?s1"
      using True Suc.prems
      by (subst diffuse.simps)
        (simp add: heat_get_def heat_set_def in_bounds_def assms)
    have feq: "(heat ?s1)(x := \<lambda>y. if 2 \<le> y \<and> int y \<le> k - 1
            then drift (heat ?s1 x (y - 1)) (heat ?s1 x (y - 2)) (heat ?s1 x (y - 2))
            else heat ?s1 x y)
        = (heat s)(x := \<lambda>y. if 2 \<le> y \<and> int y \<le> k
            then drift (heat s x (y - 1)) (heat s x (y - 2)) (heat s x (y - 2))
            else heat s x y)"
      using True by (auto simp add: fun_eq_iff nat_diff_distrib)
    then show ?thesis
      unfolding step Suc.hyps(1)[OF n lt] by simp
  qed
qed

lemma render_from:
  assumes "x < MATRIX_WIDTH e"
  shows "render e x j s = Some (s\<lparr>leds := leds s @ map (\<lambda>j. (XY e x ((MATRIX_HEIGHT e - 1) - j),
             ColorFromPalette e (scale8 e (heat s x j) 160))) [j..<MATRIX_HEIGHT e]\<rparr>)"
proof (induction "MATRIX_HEIGHT e - j" arbitrary: j s)
  case 0
  then show ?case by (simp add: render_done)
next
  case (Suc n)
  then have lt: "j < MATRIX_HEIGHT e" and n: "n = MATRIX_HEIGHT e - Suc j" by auto
  show ?case
    apply (subst render.simps)
    apply (simp add: lt heat_get_def in_bounds_def assms Suc.hyps(1)[OF n] upt_conv_Cons)
    done
qed

lemma render_heat: "render e x j t = Some t' \<Longrightarrow> heat t' = heat t"
proof (induction "MATRIX_HEIGHT e - j" arbitrary: j t)
  case 0
  then show ?case by (simp add: render_done)
next
  case (Suc n)
  then have lt: "j < MATRIX_HEIGHT e" and n: "n = MATRIX_HEIGHT e - Suc j" by auto
  from Suc.prems lt obtain v where
    "render e x (Suc j) (t\<lparr>leds := leds t @
        [(XY e x ((MATRIX_HEIGHT e - 1) - j), ColorFromPalette e (scale8 e v 160))]\<rparr>) = Some t'"
    by (subst (asm) render.simps) (auto simp add: bind_eq_Some_conv)
  from Suc.hyps(1) [OF n this] show ?case by simp
qed

lemma ignite_eq:
  assumes "x < MATRIX_WIDTH e" "2 \<le> MATRIX_HEIGHT e"
  shows "ignite e x s =
    (if unat (draw 0 255 (entropy e (rand_pos s))) < SPARKINGRainbow e then
       Some (s\<lparr>rand_pos := rand_pos s + 3,
               heat := (heat s)(x := (heat s x)
                 (unat (draw 0 2 (entropy e (rand_pos s + 1))) :=
                    qadd8 (heat s x (unat (draw 0 2 (entropy e (rand_pos s + 1)))))
                      (draw 160 255 (entropy e (rand_pos s + 2)))))\<rparr>)
     else Some (s\<lparr>rand_pos := rand_pos s + 1\<rparr>))"
proof -
  have "uint (draw 0 2 raw) < int (MATRIX_HEIGHT e)" for raw
  proof -
    have "unat (draw 0 2 raw) < MATRIX_HEIGHT e" using draw_row [of raw] assms(2) by simp
    then have "int (unat (draw 0 2 raw)) < int (MATRIX_HEIGHT e)" by (simp only: of_nat_less_iff)
    then show ?thesis by simp
  qed
  then show ?thesis
    by (simp add: ignite_def random8_def random8_lim_def random8_range_def heat_get_def
        heat_set_def in_bounds_def assms(1) eval_nat_numeral)
qed

lemma ignite_off: "\<not> unat (draw 0 255 (entropy e (rand_pos s))) < SPARKINGRainbow e \<Longrightarrow>
    ignite e x s = Some (s\<lparr>rand_pos := rand_pos s + 1\<rparr>)"
  by (simp add: ignite_def random8_def)

lemma cool_diffuse:
  assumes "x < MATRIX_WIDTH e"
  shows "cool e x 0 s \<bind> diffuse e x (int (MATRIX_HEIGHT e) - 1) =
    Some (s\<lparr>heat := (heat s)(x := \<lambda>y.
              if y < MATRIX_HEIGHT e then
                (if 2 \<le> y then drift (cooled e s x (y - 1)) (cooled e s x (y - 2)) (cooled e s x (y - 2))
                 else cooled e s x y)
              else heat s x y),
            rand_pos := rand_pos s + MATRIX_HEIGHT e\<rparr>)"
proof -
  have lt: "int (MATRIX_HEIGHT e) - 1 < int (MATRIX_HEIGHT e)" by simp
  show ?thesis
    unfolding cool_from [OF assms]
    apply (simp add: diffuse_from [OF assms lt])
    apply (rule state.equality)
       apply (auto simp add: cooled_def fun_eq_iff)
    done
qed

lemma cool_diffuse_drifted:
  assumes "x < MATRIX_WIDTH e"
  shows "cool e x 0 s \<bind> diffuse e x (int (MATRIX_HEIGHT e) - 1) =
    Some (s\<lparr>heat := (heat s)(x := drifted e s x),
            rand_pos := rand_pos s + MATRIX_HEIGHT e\<rparr>)"
proof -
  have "drifted e s x = (\<lambda>y.
              if y < MATRIX_HEIGHT e then
                (if 2 \<le> y then drift (cooled e s x (y - 1)) (cooled e s x (y - 2)) (cooled e s x (y - 2))
                 else cooled e s x y)
              else heat s x y)"
    by (simp add: fun_eq_iff drifted_def)
  then show ?thesis by (simp add: cool_diffuse [OF assms])
qed

lemma column_eq:
  assumes "x < MATRIX_WIDTH e" and "2 \<le> MATRIX_HEIGHT e \<or> \<not> spark_taken e s"
  shows "column e x s = Some (column_done e x s)"
proof -
  let ?s2 = "s\<lparr>heat := (heat s)(x := drifted e s x),
            rand_pos := rand_pos s + MATRIX_HEIGHT e\<rparr>"
  have "column e x s =
      (cool e x 0 s \<bind> diffuse e x (int (MATRIX_HEIGHT e) - 1)) \<bind>
        (\<lambda>s2. ignite e x s2 \<bind> render e x 0)"
    by (simp add: column_def)
  then have c: "column e x s = ignite e x ?s2 \<bind> render e x 0"
    unfolding cool_diffuse_drifted [OF assms(1)] by simp
  show ?thesis
  proof (cases "spark_taken e s")
    case True
    with assms(2) have h: "2 \<le> MATRIX_HEIGHT e" by simp
    from True show ?thesis
      unfolding c ignite_eq [OF assms(1) h]
      apply (simp add: spark_taken_def render_from [OF assms(1)])
      apply (simp add: column_done_def sparked_def draws_used_def spark_taken_def spark_row_def
          spark_heat_def palette_pixels_def add.assoc)
      done
  next
    case False
    then have "ignite e x ?s2 = Some (?s2\<lparr>rand_pos := rand_pos ?s2 + 1\<rparr>)"
      by (intro ignite_off) (simp add: spark_taken_def)
    with False show ?thesis
      unfolding c
      apply (simp add: render_from [OF assms(1)])
      apply (simp add: column_done_def sparked_def draws_used_def palette_pixels_def)
      done
  qed
qed


subsection \<open>The loop over the columns\<close>

text \<open>If the loop returns, the matrix is at most 255 columns wide.\<close>

lemma columns_Some_width:
  assumes "columns e x s = Some y" shows "MATRIX_WIDTH e \<le> 255"
proof -
  have "(case ((e, x), s) of (p, c) \<Rightarrow> (case p of (a, b) \<Rightarrow> (\<lambda>a b c y. MATRIX_WIDTH a \<le> 255) a b) c) y"
  proof (rule columns.raw_induct)
    show "(case ((e, x), s) of (p, c) \<Rightarrow> (case p of (a, b) \<Rightarrow> columns a b) c) = Some y"
      using assms by simp
  next
    fix cols :: "'a env \<Rightarrow> byte \<Rightarrow> 'a state \<Rightarrow> 'a state option" and e x s y
    assume IH: "\<And>e x s y. cols e x s = Some y \<Longrightarrow> MATRIX_WIDTH e \<le> 255"
      and st: "(if unat x < MATRIX_WIDTH e then column e (unat x) s \<bind> cols e (x + 1) else Some s) = Some y"
    show "MATRIX_WIDTH e \<le> 255"
    proof (cases "unat x < MATRIX_WIDTH e")
      case True
      with st obtain s' where "cols e (x + 1) s' = Some y"
        by (auto simp add: bind_eq_Some_conv)
      then show ?thesis by (rule IH)
    next
      case False
      with unat_byte_lt [of x] show ?thesis by simp
    qed
  qed
  then show ?thesis by simp
qed

lemma spark_taken_off: "SPARKINGRainbow e = 0 \<Longrightarrow> \<not> spark_taken e s"
  by (simp add: spark_taken_def)

lemma spark_taken_255: "SPARKINGRainbow e = 255 \<Longrightarrow> spark_taken e s"
  using draw_decision by (simp add: spark_taken_def)

lemma columns_from:
  assumes w: "MATRIX_WIDTH e \<le> 255" and h: "2 \<le> MATRIX_HEIGHT e \<or> SPARKINGRainbow e = 0"
  shows "n \<le> MATRIX_WIDTH e \<Longrightarrow>
    columns e (of_nat n) (columns_done e n s) = Some (columns_done e (MATRIX_WIDTH e) s)"
proof (induction "MATRIX_WIDTH e - n" arbitrary: n)
  case 0
  then have n: "n = MATRIX_WIDTH e" by simp
  have "unat (of_nat n :: byte) = n" using w n by (intro unat_byte_of_nat) simp
  then show ?case using n by (subst columns.simps) simp
next
  case (Suc m)
  then have lt: "n < MATRIX_WIDTH e" and m: "m = MATRIX_WIDTH e - Suc n" by auto
  have u: "unat (of_nat n :: byte) = n" using w lt by (intro unat_byte_of_nat) simp
  have "2 \<le> MATRIX_HEIGHT e \<or> \<not> spark_taken e (columns_done e n s)"
    using h spark_taken_off [of e] by blast
  then have c: "column e n (columns_done e n s) = Some (columns_done e (Suc n) s)"
    using column_eq [OF lt] by simp
  have "columns e (of_nat n) (columns_done e n s) =
      columns e (of_nat (Suc n)) (columns_done e (Suc n) s)"
    by (subst columns.simps) (simp add: u lt c add.commute)
  then show ?case using Suc.hyps(1) [OF m] lt by simp
qed

lemma Fire2012Rainbow_eq:
  assumes "MATRIX_WIDTH e \<le> 255" and "2 \<le> MATRIX_HEIGHT e \<or> SPARKINGRainbow e = 0"
  shows "Fire2012Rainbow e s = Some (15, columns_done e (MATRIX_WIDTH e) s)"
  using columns_from [OF assms, of 0 s] by (simp add: Fire2012Rainbow_def)

lemma Fire2012Rainbow_wide: "255 < MATRIX_WIDTH e \<Longrightarrow> Fire2012Rainbow e s = None"
proof (rule ccontr)
  assume w: "255 < MATRIX_WIDTH e" and "Fire2012Rainbow e s \<noteq> None"
  then obtain y where "columns e 0 s = Some y"
    by (auto simp add: Fire2012Rainbow_def bind_eq_Some_conv)
  then have "MATRIX_WIDTH e \<le> 255" by (rule columns_Some_width)
  with w show False by simp
qed

lemma frames_eq:
  assumes "MATRIX_WIDTH e \<le> 255" and "2 \<le> MATRIX_HEIGHT e \<or> SPARKINGRainbow e = 0"
  shows "frames e n s = Some (frames_done e n s)"
  by (induction n arbitrary: s) (simp_all add: Fire2012Rainbow_eq [OF assms])

lemma heat_column_done [simp]: "heat (column_done e x s) = (heat s)(x := sparked e s x)"
  by (simp add: column_done_def)

lemma leds_column_done [simp]:
  "leds (column_done e x s) = leds s @ palette_pixels e (heat (column_done e x s)) x"
  by (simp add: column_done_def)

lemma rand_pos_column_done [simp]:
  "rand_pos (column_done e x s) = rand_pos s + draws_used e s"
  by (simp add: column_done_def)

lemma palette_pixels_cong: "h x = h' x \<Longrightarrow> palette_pixels e h x = palette_pixels e h' x"
  by (simp add: palette_pixels_def)

lemma length_palette_pixels [simp]: "length (palette_pixels e h x) = MATRIX_HEIGHT e"
  by (simp add: palette_pixels_def)

lemma heat_columns_done_other: "n \<le> x \<Longrightarrow> heat (columns_done e n s) x = heat s x"
  by (induction n) simp_all

lemma sparked_above:
  assumes "2 \<le> MATRIX_HEIGHT e \<or> \<not> spark_taken e s" and "MATRIX_HEIGHT e \<le> y"
  shows "sparked e s x y = heat s x y"
proof -
  have "spark_row e s < 2" using draw_row by (simp add: spark_row_def)
  with assms show ?thesis by (auto simp add: sparked_def drifted_def)
qed

lemma heat_columns_done_above:
  assumes "2 \<le> MATRIX_HEIGHT e \<or> SPARKINGRainbow e = 0" and "MATRIX_HEIGHT e \<le> y"
  shows "heat (columns_done e n s) x y = heat s x y"
proof (induction n arbitrary: x)
  case 0
  show ?case by simp
next
  case (Suc n)
  have "2 \<le> MATRIX_HEIGHT e \<or> \<not> spark_taken e (columns_done e n s)"
    using assms(1) spark_taken_off [of e] by blast
  from sparked_above [OF this assms(2)] Suc show ?case by simp
qed

lemma leds_columns_done:
  "leds (columns_done e n s) =
     leds s @ concat (map (palette_pixels e (heat (columns_done e n s))) [0..<n])"
proof (induction n)
  case 0
  show ?case by simp
next
  case (Suc n)
  let ?t = "columns_done e n s"
  let ?u = "columns_done e (Suc n) s"
  have "map (palette_pixels e (heat ?u)) [0..<n] = map (palette_pixels e (heat ?t)) [0..<n]"
    by (rule map_cong [OF refl], rule palette_pixels_cong) simp
  then have a: "concat (map (palette_pixels e (heat ?u)) [0..<Suc n]) =
      concat (map (palette_pixels e (heat ?t)) [0..<n]) @ palette_pixels e (heat ?u) n"
    by (simp only: upt_Suc_append [OF le0] map_append concat_append list.map concat.simps
        append_Nil2)
  have "leds ?u = leds ?t @ palette_pixels e (heat ?u) n"
    by (simp only: columns_done.simps leds_column_done)
  then show ?case
    by (simp only: a Suc append_assoc)
qed

lemma length_concat_pixels:
  "length (concat (map (palette_pixels e h) [0..<n])) = n * MATRIX_HEIGHT e"
  by (induction n) simp_all

lemma draws_used_bounds:
  "MATRIX_HEIGHT e + 1 \<le> draws_used e s \<and> draws_used e s \<le> MATRIX_HEIGHT e + 3"
  by (simp add: draws_used_def)

lemma rand_pos_columns_done:
  "rand_pos s + n * (MATRIX_HEIGHT e + 1) \<le> rand_pos (columns_done e n s) \<and>
   rand_pos (columns_done e n s) \<le> rand_pos s + n * (MATRIX_HEIGHT e + 3)"
proof (induction n)
  case 0
  show ?case by simp
next
  case (Suc n)
  with draws_used_bounds [of e "columns_done e n s"] show ?case by simp
qed

lemma rand_pos_columns_done_255:
  "SPARKINGRainbow e = 255 \<Longrightarrow>
     rand_pos (columns_done e n s) = rand_pos s + n * (MATRIX_HEIGHT e + 3)"
  by (induction n) (simp_all add: draws_used_def spark_taken_255)

lemma rand_pos_columns_done_0:
  "SPARKINGRainbow e = 0 \<Longrightarrow>
     rand_pos (columns_done e n s) = rand_pos s + n * (MATRIX_HEIGHT e + 1)"
  by (induction n) (simp_all add: draws_used_def spark_taken_off)

subsection \<open>Step 1: cooling\<close>

lemma unat_byte_bound: "unat (of_nat n :: byte) = n mod 256"
  by (simp add: unat_of_nat)

lemma cooling_draw_range:
  assumes "0 < B mod 256"
  shows "unat (draw 0 (of_nat B) raw) < B mod 256"
proof -
  have "unat (of_nat B :: byte) = B mod 256" by (rule unat_byte_bound)
  with assms have "(0 :: byte) < of_nat B" by (simp add: word_less_nat_alt)
  from draw_range [OF this, of raw] show ?thesis by (simp only: unat_byte_bound)
qed

lemma cooling_draw_onto:
  assumes "v < B mod 256"
  shows "unat (draw 0 (of_nat B) v) = v"
proof -
  have u: "unat (of_nat B :: byte) = B mod 256" by (rule unat_byte_bound)
  with assms have lt: "(0 :: byte) < of_nat B" by (simp add: word_less_nat_alt)
  from assms have "unat (0 :: byte) \<le> v" "v < unat (of_nat B :: byte)" by (simp_all add: u)
  from draw_onto [OF lt this] show ?thesis by simp
qed

text \<open>
  C3, as the claim states it, fails where the bound does not fit a byte. With
  \<open>COOLINGRainbow = 150\<close> and three rows the bound is 502, which \<^verbatim>\<open>random8\<close> receives as
  246: whatever the generator yields, a cell holding 255 holds at least 10 after cooling,
  although the claimed range \<open>[0,502)\<close> contains amounts that would bring it to 0.
\<close>

theorem cooling_bound_is_cut_to_a_byte:
  "(COOLINGRainbow (test_env 1 3 150 60 (\<lambda>n. 0)) * 10)
      div MATRIX_HEIGHT (test_env 1 3 150 60 (\<lambda>n. 0)) + 2 = 502 \<and>
   (\<forall>raw. \<exists>s'. cool (test_env 1 3 150 60 raw) 0 0 (test_state\<lparr>heat := \<lambda>x y. 255\<rparr>) = Some s' \<and>
      10 \<le> unat (heat s' 0 0))"
proof (intro conjI allI)
  show "(COOLINGRainbow (test_env 1 3 150 60 (\<lambda>n. 0)) * 10)
      div MATRIX_HEIGHT (test_env 1 3 150 60 (\<lambda>n. 0)) + 2 = 502"
    by (simp add: test_env_def)
next
  fix raw
  let ?e = "test_env 1 3 150 60 raw"
  let ?s = "test_state\<lparr>heat := \<lambda>x y. 255\<rparr>"
  have w: "0 < MATRIX_WIDTH ?e" and h: "0 < MATRIX_HEIGHT ?e" and l: "cooling_lim ?e = 502"
    by (simp_all add: test_env_def cooling_lim_def)
  have "unat (draw 0 (of_nat (502::nat)) (entropy ?e (rand_pos ?s + 0))) < 502 mod 256"
    by (rule cooling_draw_range) simp
  then have d: "unat (draw 0 (of_nat (cooling_lim ?e)) (entropy ?e (rand_pos ?s + (0 - 0)))) < 246"
    unfolding l by simp
  have "unat (qsub8 255 (draw 0 (of_nat (cooling_lim ?e)) (entropy ?e (rand_pos ?s + (0 - 0)))))
      = 255 - unat (draw 0 (of_nat (cooling_lim ?e)) (entropy ?e (rand_pos ?s + (0 - 0))))"
    by (simp only: unat_qsub8) simp
  with d have "10 \<le> unat (qsub8 255
      (draw 0 (of_nat (cooling_lim ?e)) (entropy ?e (rand_pos ?s + (0 - 0)))))"
    by arith
  with h show "\<exists>s'. cool ?e 0 0 ?s = Some s' \<and> 10 \<le> unat (heat s' 0 0)"
    unfolding cool_from [OF w] by simp
qed

text \<open>
  C3, amended. The cooling loop of a column never fails. Every row \<open>i\<close> below
  \<open>MATRIX_HEIGHT\<close> is replaced by \<open>qsub8\<close> of its previous value and a draw whose upper bound
  is \<open>B = ((COOLINGRainbow * 10) / MATRIX_HEIGHT) + 2\<close> converted to a byte; read as integers
  the new value is \<open>max 0 (old - draw)\<close>, so it is never below 0 and never above the old value.
  When \<open>B mod 256\<close> is not 0, every draw is below \<open>B mod 256\<close> and every amount below it can
  be drawn; \<open>B mod 256\<close> is \<open>B\<close> itself when \<open>B \<le> 255\<close>. One draw is made per row, and nothing
  else is changed.
\<close>

theorem cool_saturating_subtraction:
  assumes "x < MATRIX_WIDTH e"
  shows "let B = (COOLINGRainbow e * 10) div MATRIX_HEIGHT e + 2 in
     \<exists>s'. cool e x 0 s = Some s' \<and>
     (\<forall>i. i < MATRIX_HEIGHT e \<longrightarrow>
        heat s' x i = qsub8 (heat s x i) (draw 0 (of_nat B) (entropy e (rand_pos s + i))) \<and>
        uint (heat s' x i) =
          max 0 (uint (heat s x i) - uint (draw 0 (of_nat B) (entropy e (rand_pos s + i)))) \<and>
        unat (heat s' x i) \<le> unat (heat s x i)) \<and>
     (\<forall>raw. 0 < B mod 256 \<longrightarrow> unat (draw 0 (of_nat B) raw) < B mod 256) \<and>
     (\<forall>v. v < B mod 256 \<longrightarrow> unat (draw 0 (of_nat B) v) = v) \<and>
     (B \<le> 255 \<longrightarrow> B mod 256 = B) \<and>
     (\<forall>y. MATRIX_HEIGHT e \<le> y \<longrightarrow> heat s' x y = heat s x y) \<and>
     (\<forall>x'. x' \<noteq> x \<longrightarrow> heat s' x' = heat s x') \<and>
     leds s' = leds s \<and> rand_pos s' = rand_pos s + MATRIX_HEIGHT e"
proof -
  let ?B = "(COOLINGRainbow e * 10) div MATRIX_HEIGHT e + 2"
  let ?s' = "s\<lparr>heat := (heat s)(x := \<lambda>y. if 0 \<le> y \<and> y < MATRIX_HEIGHT e
            then qsub8 (heat s x y) (draw 0 (of_nat ?B) (entropy e (rand_pos s + (y - 0))))
            else heat s x y),
          rand_pos := rand_pos s + (MATRIX_HEIGHT e - 0)\<rparr>"
  have c: "cool e x 0 s = Some ?s'"
    unfolding cool_from [OF assms] cooling_lim_def ..
  have le: "unat (qsub8 a d) \<le> unat a" for a d
    by (simp add: unat_qsub8)
  have 1: "\<forall>i. i < MATRIX_HEIGHT e \<longrightarrow>
        heat ?s' x i = qsub8 (heat s x i) (draw 0 (of_nat ?B) (entropy e (rand_pos s + i))) \<and>
        uint (heat ?s' x i) =
          max 0 (uint (heat s x i) - uint (draw 0 (of_nat ?B) (entropy e (rand_pos s + i)))) \<and>
        unat (heat ?s' x i) \<le> unat (heat s x i)"
    using le by (simp add: uint_qsub8)
  have 2: "\<forall>raw. 0 < ?B mod 256 \<longrightarrow> unat (draw 0 (of_nat ?B) raw) < ?B mod 256"
    using cooling_draw_range [of ?B] by blast
  have 3: "\<forall>v. v < ?B mod 256 \<longrightarrow> unat (draw 0 (of_nat ?B) v) = v"
    using cooling_draw_onto [of _ ?B] by blast
  have 4: "?B \<le> 255 \<longrightarrow> ?B mod 256 = ?B" by simp
  have 5: "\<forall>y. MATRIX_HEIGHT e \<le> y \<longrightarrow> heat ?s' x y = heat s x y"
    and 6: "\<forall>x'. x' \<noteq> x \<longrightarrow> heat ?s' x' = heat s x'"
    and 7: "leds ?s' = leds s" and 8: "rand_pos ?s' = rand_pos s + MATRIX_HEIGHT e"
    by simp_all
  show ?thesis
    unfolding Let_def
    by (rule exI [of _ ?s']) (intro conjI c 1 2 3 4 5 6 7 8)
qed

theorem cool_saturating_subtraction_witness:
  "0 < MATRIX_WIDTH (test_env 1 3 150 60 (\<lambda>n. 7)) \<and>
   (COOLINGRainbow (test_env 1 3 150 60 (\<lambda>n. 7)) * 10)
      div MATRIX_HEIGHT (test_env 1 3 150 60 (\<lambda>n. 7)) + 2 = 502 \<and>
   (\<exists>s'. cool (test_env 1 3 150 60 (\<lambda>n. 7)) 0 0 test_state = Some s' \<and>
      heat s' 0 0 = 193 \<and> heat s' 0 1 = 93 \<and> heat s' 0 2 = 43 \<and> rand_pos s' = 3) \<and>
   unat (draw 0 (of_nat 502) 245) = 245"
proof -
  let ?e = "test_env 1 3 150 60 (\<lambda>n. 7)"
  have w: "0 < MATRIX_WIDTH ?e" and h: "MATRIX_HEIGHT ?e = 3"
    and b: "(COOLINGRainbow ?e * 10) div MATRIX_HEIGHT ?e + 2 = 502"
    by (simp_all add: test_env_def)
  have d: "draw 0 (of_nat 502) (entropy ?e n) = 7" for n
    by (simp add: test_env_def draw_def)
  have i: "(0::nat) < MATRIX_HEIGHT ?e" "(1::nat) < MATRIX_HEIGHT ?e" "(2::nat) < MATRIX_HEIGHT ?e"
    and v: "(245::nat) < 502 mod 256"
    unfolding h by simp_all
  from cool_saturating_subtraction [OF w, of test_state, unfolded Let_def b] obtain s' where
    c: "cool ?e 0 0 test_state = Some s'"
    and r: "\<forall>i. i < MATRIX_HEIGHT ?e \<longrightarrow>
        heat s' 0 i = qsub8 (heat test_state 0 i)
          (draw 0 (of_nat 502) (entropy ?e (rand_pos test_state + i))) \<and>
        uint (heat s' 0 i) =
          max 0 (uint (heat test_state 0 i) -
            uint (draw 0 (of_nat 502) (entropy ?e (rand_pos test_state + i)))) \<and>
        unat (heat s' 0 i) \<le> unat (heat test_state 0 i)"
    and o: "\<forall>v. v < 502 mod 256 \<longrightarrow> unat (draw 0 (of_nat 502) v) = v"
    and p: "rand_pos s' = rand_pos test_state + MATRIX_HEIGHT ?e"
    by (elim exE conjE) (rule that, assumption+)
  from r [rule_format, OF i(1)] r [rule_format, OF i(2)] r [rule_format, OF i(3)]
  have "heat s' 0 0 = qsub8 (heat test_state 0 0) 7"
    "heat s' 0 1 = qsub8 (heat test_state 0 1) 7" "heat s' 0 2 = qsub8 (heat test_state 0 2) 7"
    unfolding d by simp_all
  then have "heat s' 0 0 = 193" "heat s' 0 1 = 93" "heat s' 0 2 = 43"
    by (simp_all add: test_state_def qsub8_def)
  moreover from p have "rand_pos s' = 3" unfolding h by (simp add: test_state_def)
  moreover from o [rule_format, OF v] have "unat (draw 0 (of_nat 502) 245) = 245" .
  ultimately show ?thesis using w b c by blast
qed

subsection \<open>Step 2: diffusion\<close>

text \<open>
  C2. The diffusion loop of a column never fails. It gives every row \<open>k\<close> from 2 up to
  \<open>MATRIX_HEIGHT - 1\<close> the value \<open>(heat[x][k-1] + heat[x][k-2] + heat[x][k-2]) div 3\<close>,
  computed from the heat before the loop (the rows are visited from the top down, so a row is
  read before it is overwritten) and without any reduction modulo 256; rows 0 and 1, the
  other columns, the frame buffer and the random generator are left as they were. The loop
  starts at \<open>k = MATRIX_HEIGHT - 1\<close>; an iteration at \<open>k \<ge> 2\<close> assigns row \<open>k\<close> and goes on
  with \<open>k - 1\<close>, and the loop ends below 2.
\<close>

theorem diffuse_weighted_average:
  assumes "x < MATRIX_WIDTH e"
  shows "\<exists>s'. diffuse e x (int (MATRIX_HEIGHT e) - 1) s = Some s' \<and>
     (\<forall>k. 2 \<le> k \<and> k < MATRIX_HEIGHT e \<longrightarrow>
        unat (heat s' x k) =
          (unat (heat s x (k - 1)) + unat (heat s x (k - 2)) + unat (heat s x (k - 2))) div 3) \<and>
     heat s' x 0 = heat s x 0 \<and> heat s' x 1 = heat s x 1 \<and>
     (\<forall>y. MATRIX_HEIGHT e \<le> y \<longrightarrow> heat s' x y = heat s x y) \<and>
     (\<forall>x'. x' \<noteq> x \<longrightarrow> heat s' x' = heat s x') \<and>
     leds s' = leds s \<and> rand_pos s' = rand_pos s \<and>
     (\<forall>k t. 2 \<le> k \<and> k < int (MATRIX_HEIGHT e) \<longrightarrow>
        diffuse e x k t =
          diffuse e x (k - 1)
            (t\<lparr>heat := (heat t)(x := (heat t x)(nat k :=
                 drift (heat t x (nat (k - 1))) (heat t x (nat (k - 2)))
                   (heat t x (nat (k - 2)))))\<rparr>)) \<and>
     (\<forall>k t. k < 2 \<longrightarrow> diffuse e x k t = Some t)"
proof -
  have lt: "int (MATRIX_HEIGHT e) - 1 < int (MATRIX_HEIGHT e)" by simp
  have a: "\<exists>s'. diffuse e x (int (MATRIX_HEIGHT e) - 1) s = Some s' \<and>
     (\<forall>k. 2 \<le> k \<and> k < MATRIX_HEIGHT e \<longrightarrow>
        unat (heat s' x k) =
          (unat (heat s x (k - 1)) + unat (heat s x (k - 2)) + unat (heat s x (k - 2))) div 3) \<and>
     heat s' x 0 = heat s x 0 \<and> heat s' x 1 = heat s x 1 \<and>
     (\<forall>y. MATRIX_HEIGHT e \<le> y \<longrightarrow> heat s' x y = heat s x y) \<and>
     (\<forall>x'. x' \<noteq> x \<longrightarrow> heat s' x' = heat s x') \<and>
     leds s' = leds s \<and> rand_pos s' = rand_pos s"
    unfolding diffuse_from [OF assms lt]
    by (auto simp add: unat_drift)
  have b: "\<forall>k t. 2 \<le> k \<and> k < int (MATRIX_HEIGHT e) \<longrightarrow>
        diffuse e x k t =
          diffuse e x (k - 1)
            (t\<lparr>heat := (heat t)(x := (heat t x)(nat k :=
                 drift (heat t x (nat (k - 1))) (heat t x (nat (k - 2)))
                   (heat t x (nat (k - 2)))))\<rparr>)"
    using diffuse_step [OF assms] by blast
  have c: "\<forall>k t. k < 2 \<longrightarrow> diffuse e x k t = Some t"
    by (simp add: diffuse_done)
  from a obtain s' where s': "diffuse e x (int (MATRIX_HEIGHT e) - 1) s = Some s' \<and>
     (\<forall>k. 2 \<le> k \<and> k < MATRIX_HEIGHT e \<longrightarrow>
        unat (heat s' x k) =
          (unat (heat s x (k - 1)) + unat (heat s x (k - 2)) + unat (heat s x (k - 2))) div 3) \<and>
     heat s' x 0 = heat s x 0 \<and> heat s' x 1 = heat s x 1 \<and>
     (\<forall>y. MATRIX_HEIGHT e \<le> y \<longrightarrow> heat s' x y = heat s x y) \<and>
     (\<forall>x'. x' \<noteq> x \<longrightarrow> heat s' x' = heat s x') \<and>
     leds s' = leds s \<and> rand_pos s' = rand_pos s" ..
  show ?thesis
    by (rule exI [of _ s']) (use s' b c in blast)
qed

theorem diffuse_weighted_average_witness:
  "0 < MATRIX_WIDTH (test_env 1 3 0 60 (\<lambda>n. 0)) \<and>
   (\<exists>s'. diffuse (test_env 1 3 0 60 (\<lambda>n. 0)) 0 2 test_state = Some s' \<and>
      unat (heat s' 0 2) = 166 \<and> heat s' 0 0 = 200 \<and> heat s' 0 1 = 100)"
proof -
  let ?e = "test_env 1 3 0 60 (\<lambda>n. 0)"
  have w: "0 < MATRIX_WIDTH ?e" and h: "int (MATRIX_HEIGHT ?e) - 1 = 2"
    by (simp_all add: test_env_def)
  from diffuse_weighted_average [OF w, of test_state] obtain s' where
    d: "diffuse ?e 0 (int (MATRIX_HEIGHT ?e) - 1) test_state = Some s'"
    and avg: "\<forall>k. 2 \<le> k \<and> k < MATRIX_HEIGHT ?e \<longrightarrow>
        unat (heat s' 0 k) =
          (unat (heat test_state 0 (k - 1)) + unat (heat test_state 0 (k - 2))
            + unat (heat test_state 0 (k - 2))) div 3"
    and r0: "heat s' 0 0 = heat test_state 0 0" and r1: "heat s' 0 1 = heat test_state 0 1"
    by blast
  have "2 \<le> (2::nat) \<and> 2 < MATRIX_HEIGHT ?e" by (simp add: test_env_def)
  with avg have "unat (heat s' 0 2) =
          (unat (heat test_state 0 (2 - 1)) + unat (heat test_state 0 (2 - 2))
            + unat (heat test_state 0 (2 - 2))) div 3" by blast
  then have "unat (heat s' 0 2) = 166" by (simp add: test_state_def)
  with w d r0 r1 show ?thesis unfolding h by (simp add: test_state_def)
qed

text \<open>
  C6. For \<open>MATRIX_HEIGHT \<ge> 3\<close> the diffusion loop makes no access outside the array, in
  particular none below row 0; for \<open>MATRIX_HEIGHT = 3\<close> it assigns row 2 and no other row;
  for \<open>MATRIX_HEIGHT < 3\<close> it returns the state unchanged without any access.
\<close>

theorem diffuse_stays_in_bounds:
  "(3 \<le> MATRIX_HEIGHT e \<and> x < MATRIX_WIDTH e \<longrightarrow>
      diffuse e x (int (MATRIX_HEIGHT e) - 1) s \<noteq> None) \<and>
   (MATRIX_HEIGHT e = 3 \<and> x < MATRIX_WIDTH e \<longrightarrow>
      diffuse e x (int (MATRIX_HEIGHT e) - 1) s =
        Some (s\<lparr>heat := (heat s)(x := (heat s x)(2 :=
                drift (heat s x 1) (heat s x 0) (heat s x 0)))\<rparr>)) \<and>
   (MATRIX_HEIGHT e < 3 \<longrightarrow> diffuse e x (int (MATRIX_HEIGHT e) - 1) s = Some s)"
proof (intro conjI impI)
  assume "3 \<le> MATRIX_HEIGHT e \<and> x < MATRIX_WIDTH e"
  then show "diffuse e x (int (MATRIX_HEIGHT e) - 1) s \<noteq> None"
    by (simp add: diffuse_from)
next
  assume a: "MATRIX_HEIGHT e = 3 \<and> x < MATRIX_WIDTH e"
  then have k: "int (MATRIX_HEIGHT e) - 1 = 2" by simp
  have "diffuse e x 2 s =
      diffuse e x 1 (s\<lparr>heat := (heat s)(x := (heat s x)(2 :=
                drift (heat s x 1) (heat s x 0) (heat s x 0)))\<rparr>)"
    using a by (subst diffuse.simps)
      (simp add: heat_get_def heat_set_def in_bounds_def)
  then show "diffuse e x (int (MATRIX_HEIGHT e) - 1) s =
        Some (s\<lparr>heat := (heat s)(x := (heat s x)(2 :=
                drift (heat s x 1) (heat s x 0) (heat s x 0)))\<rparr>)"
    unfolding k by (simp add: diffuse_done)
next
  assume "MATRIX_HEIGHT e < 3"
  then have "\<not> 2 \<le> int (MATRIX_HEIGHT e) - 1" by simp
  then show "diffuse e x (int (MATRIX_HEIGHT e) - 1) s = Some s" by (simp add: diffuse_done)
qed

theorem diffuse_stays_in_bounds_witness:
  "(3 \<le> MATRIX_HEIGHT (test_env 1 3 0 60 (\<lambda>n. 0)) \<and> (0::nat) < MATRIX_WIDTH (test_env 1 3 0 60 (\<lambda>n. 0))) \<and>
   diffuse (test_env 1 3 0 60 (\<lambda>n. 0)) 0 2 test_state \<noteq> None \<and>
   diffuse (test_env 1 3 0 60 (\<lambda>n. 0)) 0 2 test_state =
     Some (test_state\<lparr>heat := (heat test_state)(0 := (heat test_state 0)(2 := 166))\<rparr>) \<and>
   MATRIX_HEIGHT (test_env 1 2 0 60 (\<lambda>n. 0)) < 3 \<and>
   diffuse (test_env 1 2 0 60 (\<lambda>n. 0)) 0 1 test_state = Some test_state"
proof -
  let ?e = "test_env 1 3 0 60 (\<lambda>n. 0)"
  let ?f = "test_env 1 2 0 60 (\<lambda>n. 0)"
  have e: "MATRIX_HEIGHT ?e = 3" "(0::nat) < MATRIX_WIDTH ?e" and f: "MATRIX_HEIGHT ?f = 2"
    by (simp_all add: test_env_def)
  have d: "drift (heat test_state 0 1) (heat test_state 0 0) (heat test_state 0 0) = 166"
    by (simp add: test_state_def drift_def)
  show ?thesis
    using diffuse_stays_in_bounds [of ?e 0 test_state] diffuse_stays_in_bounds [of ?f 0 test_state]
      e(2)
    unfolding e(1) f d by simp
qed

subsection \<open>Step 3: ignition\<close>



lemma column_ignited:
  assumes "SPARKINGRainbow e = 255" and "2 \<le> MATRIX_HEIGHT e" and "x < MATRIX_WIDTH e"
  shows "\<exists>t' t2 y d. column e x t = Some t' \<and>
     cool e x 0 t \<bind> diffuse e x (int (MATRIX_HEIGHT e) - 1) = Some t2 \<and>
     (y = 0 \<or> y = 1) \<and> 160 \<le> unat d \<and> unat d < 255 \<and>
     ignite e x t2 =
       Some (t2\<lparr>rand_pos := rand_pos t2 + 3,
               heat := (heat t2)(x := (heat t2 x)(y := qadd8 (heat t2 x y) d))\<rparr>) \<and>
     heat t' = (heat t2)(x := (heat t2 x)(y := qadd8 (heat t2 x y) d)) \<and>
     rand_pos t' = rand_pos t + MATRIX_HEIGHT e + 3"
proof -
  let ?t2 = "t\<lparr>heat := (heat t)(x := drifted e t x),
            rand_pos := rand_pos t + MATRIX_HEIGHT e\<rparr>"
  let ?y = "unat (draw 0 2 (entropy e (rand_pos ?t2 + 1)))"
  let ?d = "draw 160 255 (entropy e (rand_pos ?t2 + 2))"
  have sp: "spark_taken e t" by (rule spark_taken_255 [OF assms(1)])
  have c: "column e x t = Some (column_done e x t)"
    using column_eq [OF assms(3), of t] assms(2) by simp
  have cd: "cool e x 0 t \<bind> diffuse e x (int (MATRIX_HEIGHT e) - 1) = Some ?t2"
    by (rule cool_diffuse_drifted [OF assms(3)])
  have "unat (draw 0 255 (entropy e (rand_pos ?t2))) < SPARKINGRainbow e"
    using draw_decision assms(1) by simp
  with ignite_eq [OF assms(3,2), of ?t2]
  have i: "ignite e x ?t2 =
       Some (?t2\<lparr>rand_pos := rand_pos ?t2 + 3,
               heat := (heat ?t2)(x := (heat ?t2 x)(?y := qadd8 (heat ?t2 x ?y) ?d))\<rparr>)"
    by simp
  have "?y < 2" by (rule draw_row)
  then have y: "?y = 0 \<or> ?y = 1" by auto
  have d: "160 \<le> unat ?d \<and> unat ?d < 255" by (rule draw_amount)
  have h: "heat (column_done e x t) =
      (heat ?t2)(x := (heat ?t2 x)(?y := qadd8 (heat ?t2 x ?y) ?d))"
    using sp by (simp add: column_done_def sparked_def spark_row_def spark_heat_def add.assoc)
  have r: "rand_pos (column_done e x t) = rand_pos t + MATRIX_HEIGHT e + 3"
    using sp by (simp add: column_done_def draws_used_def)
  from c cd y d i h r show ?thesis by blast
qed

lemma heat_columns_done_later:
  "x < m \<Longrightarrow> m \<le> n \<Longrightarrow> heat (columns_done e n s) x = heat (columns_done e m s) x"
proof (induction n)
  case 0
  then show ?case by simp
next
  case (Suc n)
  show ?case
  proof (cases "m = Suc n")
    case True
    then show ?thesis by simp
  next
    case False
    with Suc.prems have "m \<le> n" and "x \<noteq> n" by simp_all
    with Suc.IH [OF Suc.prems(1)] show ?thesis by simp
  qed
qed

text \<open>
  C8, as the claim states it, fails for a matrix of 256 columns and 3 rows with
  \<open>SPARKINGRainbow = 255\<close>: every column step succeeds, but the byte counter never reaches
  \<open>MATRIX_WIDTH\<close>, so the invocation never ends and takes up the columns again and again.
\<close>

theorem sparking_255_wide_matrix_never_returns:
  "Fire2012Rainbow (test_env 256 3 150 255 (\<lambda>n. 0)) test_state = None \<and>
   (\<forall>x t. column (test_env 256 3 150 255 (\<lambda>n. 0)) (unat (x :: byte)) t \<noteq> None)"
proof
  show "Fire2012Rainbow (test_env 256 3 150 255 (\<lambda>n. 0)) test_state = None"
    by (rule Fire2012Rainbow_wide) (simp add: test_env_def)
next
  let ?e = "test_env 256 3 150 255 (\<lambda>n. 0)"
  have h: "2 \<le> MATRIX_HEIGHT ?e" by (simp add: test_env_def)
  have "unat x < MATRIX_WIDTH ?e" for x :: byte
    using unat_byte_lt [of x] by (simp add: test_env_def)
  then show "\<forall>x t. column ?e (unat (x :: byte)) t \<noteq> None"
    using h by (simp add: column_eq)
qed

text \<open>
  C8, amended. When \<open>SPARKINGRainbow = 255\<close> and \<open>MATRIX_HEIGHT \<ge> 2\<close>, the decision byte is
  below it whatever the generator yields, so the ignition step always takes its branch. The
  step of a column \<open>x\<close> from any state cools and diffuses to a state \<open>t2\<close>, ignites there,
  which replaces one cell of row 0 or 1 by \<open>qadd8\<close> of it and an amount in \<open>[160,255)\<close>, and
  leaves that heat behind, having made \<open>MATRIX_HEIGHT + 3\<close> draws. For
  \<open>MATRIX_WIDTH \<le> 255\<close> a frame returns and runs the step of every column once, in order,
  each from the state the previous one left, and the heat a column's step leaves in that
  column is its heat at the end of the frame.
\<close>

theorem sparking_255_ignites_every_column:
  assumes "SPARKINGRainbow e = 255" and "2 \<le> MATRIX_HEIGHT e"
  shows "(\<forall>x t. x < MATRIX_WIDTH e \<longrightarrow>
       unat (draw 0 255 (entropy e (rand_pos t))) < SPARKINGRainbow e \<and>
       (\<exists>y d. (y = 0 \<or> y = 1) \<and> 160 \<le> unat d \<and> unat d < 255 \<and>
          ignite e x t =
            Some (t\<lparr>rand_pos := rand_pos t + 3,
                    heat := (heat t)(x := (heat t x)(y := qadd8 (heat t x y) d))\<rparr>))) \<and>
     (\<forall>x t. x < MATRIX_WIDTH e \<longrightarrow>
       (\<exists>t' t2 y d. column e x t = Some t' \<and>
          cool e x 0 t \<bind> diffuse e x (int (MATRIX_HEIGHT e) - 1) = Some t2 \<and>
          (y = 0 \<or> y = 1) \<and> 160 \<le> unat d \<and> unat d < 255 \<and>
          ignite e x t2 =
            Some (t2\<lparr>rand_pos := rand_pos t2 + 3,
                    heat := (heat t2)(x := (heat t2 x)(y := qadd8 (heat t2 x y) d))\<rparr>) \<and>
          heat t' = (heat t2)(x := (heat t2 x)(y := qadd8 (heat t2 x y) d)) \<and>
          rand_pos t' = rand_pos t + MATRIX_HEIGHT e + 3)) \<and>
     (MATRIX_WIDTH e \<le> 255 \<longrightarrow>
       (\<exists>st. st 0 = s \<and> Fire2012Rainbow e s = Some (15, st (MATRIX_WIDTH e)) \<and>
          (\<forall>x. x < MATRIX_WIDTH e \<longrightarrow>
             column e x (st x) = Some (st (Suc x)) \<and>
             heat (st (MATRIX_WIDTH e)) x = heat (st (Suc x)) x)))"
proof (intro conjI allI impI)
  fix x and t :: "'a state"
  assume x: "x < MATRIX_WIDTH e"
  let ?y = "unat (draw 0 2 (entropy e (rand_pos t + 1)))"
  let ?d = "draw 160 255 (entropy e (rand_pos t + 2))"
  from draw_decision [of "entropy e (rand_pos t)"] assms(1)
  show r: "unat (draw 0 255 (entropy e (rand_pos t))) < SPARKINGRainbow e" by simp
  with ignite_eq [OF x assms(2), of t]
  have i: "ignite e x t = Some (t\<lparr>rand_pos := rand_pos t + 3,
                  heat := (heat t)(x := (heat t x)(?y := qadd8 (heat t x ?y) ?d))\<rparr>)"
    by simp
  have "?y < 2" by (rule draw_row)
  then have "?y = 0 \<or> ?y = 1" by auto
  moreover have "160 \<le> unat ?d \<and> unat ?d < 255" by (rule draw_amount)
  ultimately show "\<exists>y d. (y = 0 \<or> y = 1) \<and> 160 \<le> unat d \<and> unat d < 255 \<and>
          ignite e x t =
            Some (t\<lparr>rand_pos := rand_pos t + 3,
                    heat := (heat t)(x := (heat t x)(y := qadd8 (heat t x y) d))\<rparr>)"
    using i by blast
  show "\<exists>t' t2 y d. column e x t = Some t' \<and>
          cool e x 0 t \<bind> diffuse e x (int (MATRIX_HEIGHT e) - 1) = Some t2 \<and>
          (y = 0 \<or> y = 1) \<and> 160 \<le> unat d \<and> unat d < 255 \<and>
          ignite e x t2 =
            Some (t2\<lparr>rand_pos := rand_pos t2 + 3,
                    heat := (heat t2)(x := (heat t2 x)(y := qadd8 (heat t2 x y) d))\<rparr>) \<and>
          heat t' = (heat t2)(x := (heat t2 x)(y := qadd8 (heat t2 x y) d)) \<and>
          rand_pos t' = rand_pos t + MATRIX_HEIGHT e + 3"
    by (rule column_ignited [OF assms x])
next
  assume w: "MATRIX_WIDTH e \<le> 255"
  have h: "2 \<le> MATRIX_HEIGHT e \<or> SPARKINGRainbow e = 0" using assms(2) by simp
  let ?st = "\<lambda>x. columns_done e x s"
  have 0: "?st 0 = s" by simp
  have 1: "Fire2012Rainbow e s = Some (15, ?st (MATRIX_WIDTH e))"
    by (rule Fire2012Rainbow_eq [OF w h])
  have 2: "column e x (?st x) = Some (?st (Suc x)) \<and>
      heat (?st (MATRIX_WIDTH e)) x = heat (?st (Suc x)) x" if "x < MATRIX_WIDTH e" for x
  proof
    show "column e x (?st x) = Some (?st (Suc x))"
      using column_eq [OF that, of "?st x"] assms(2) by simp
    from that have "x < Suc x" "Suc x \<le> MATRIX_WIDTH e" by simp_all
    then show "heat (?st (MATRIX_WIDTH e)) x = heat (?st (Suc x)) x"
      by (rule heat_columns_done_later)
  qed
  show "\<exists>st. st 0 = s \<and> Fire2012Rainbow e s = Some (15, st (MATRIX_WIDTH e)) \<and>
          (\<forall>x. x < MATRIX_WIDTH e \<longrightarrow>
             column e x (st x) = Some (st (Suc x)) \<and>
             heat (st (MATRIX_WIDTH e)) x = heat (st (Suc x)) x)"
    by (rule exI [of _ ?st]) (use 0 1 2 in blast)
qed

theorem sparking_255_ignites_every_column_witness:
  "SPARKINGRainbow (test_env 2 3 150 255 (\<lambda>n. 254)) = 255 \<and>
   2 \<le> MATRIX_HEIGHT (test_env 2 3 150 255 (\<lambda>n. 254)) \<and>
   MATRIX_WIDTH (test_env 2 3 150 255 (\<lambda>n. 254)) \<le> 255 \<and>
   (1::nat) < MATRIX_WIDTH (test_env 2 3 150 255 (\<lambda>n. 254)) \<and>
   unat (draw 0 255 (entropy (test_env 2 3 150 255 (\<lambda>n. 254)) (rand_pos test_state)))
     < SPARKINGRainbow (test_env 2 3 150 255 (\<lambda>n. 254)) \<and>
   (\<exists>s'. Fire2012Rainbow (test_env 2 3 150 255 (\<lambda>n. 254)) test_state = Some (15, s') \<and>
      rand_pos s' = 12)"
proof -
  let ?e = "test_env 2 3 150 255 (\<lambda>n. 254)"
  have a: "SPARKINGRainbow ?e = 255" "2 \<le> MATRIX_HEIGHT ?e"
    and w: "MATRIX_WIDTH ?e \<le> 255" and x: "(0::nat) < MATRIX_WIDTH ?e" "(1::nat) < MATRIX_WIDTH ?e"
    and m: "MATRIX_WIDTH ?e = Suc (Suc 0)" and hh: "MATRIX_HEIGHT ?e = 3"
    and p: "rand_pos test_state = 0"
    by (simp_all add: test_env_def test_state_def)
  note T = sparking_255_ignites_every_column [OF a, of test_state]
  from T x(1) have r: "unat (draw 0 255 (entropy ?e (rand_pos test_state))) < SPARKINGRainbow ?e"
    by blast
  from T w obtain st where st0: "st 0 = test_state"
    and fr: "Fire2012Rainbow ?e test_state = Some (15, st (MATRIX_WIDTH ?e))"
    and ch: "\<forall>x. x < MATRIX_WIDTH ?e \<longrightarrow> column ?e x (st x) = Some (st (Suc x))"
    by blast
  have step: "rand_pos (st (Suc x)) = rand_pos (st x) + MATRIX_HEIGHT ?e + 3"
    if "x < MATRIX_WIDTH ?e" for x
  proof -
    from T that obtain t' where "column ?e x (st x) = Some t'"
      and "rand_pos t' = rand_pos (st x) + MATRIX_HEIGHT ?e + 3"
      by blast
    moreover from ch that have "column ?e x (st x) = Some (st (Suc x))" by blast
    ultimately show ?thesis by simp
  qed
  from step [OF x(1)] step [OF x(2)] have "rand_pos (st (Suc (Suc 0))) = 12"
    unfolding st0 p hh by simp
  with fr have "\<exists>s'. Fire2012Rainbow ?e test_state = Some (15, s') \<and> rand_pos s' = 12"
    unfolding m by blast
  with a w x(2) r show ?thesis by blast
qed

subsection \<open>Step 4: rendering\<close>

text \<open>
  C5. The rendering loop of a column never fails and leaves the heat and the random generator
  alone. It appends one assignment per row \<open>j\<close>, in order: the pixel at
  \<open>XY x ((MATRIX_HEIGHT - 1) - j)\<close> receives \<open>ColorFromPalette (scale8 (heat[x][j]) 160)\<close>.
  The assignments depend on the heat of the column only: from any other state with the same
  heat in that column the loop appends the same assignments.
\<close>

theorem render_palette_lookup:
  assumes "x < MATRIX_WIDTH e"
  shows "\<exists>s'. render e x 0 s = Some s' \<and>
     heat s' = heat s \<and> rand_pos s' = rand_pos s \<and>
     leds s' = leds s @ palette_pixels e (heat s) x \<and>
     length (leds s') = length (leds s) + MATRIX_HEIGHT e \<and>
     (\<forall>j. j < MATRIX_HEIGHT e \<longrightarrow>
        leds s' ! (length (leds s) + j) =
          (XY e x ((MATRIX_HEIGHT e - 1) - j), ColorFromPalette e (scale8 e (heat s x j) 160))) \<and>
     (\<forall>t. (\<forall>j. j < MATRIX_HEIGHT e \<longrightarrow> heat t x j = heat s x j) \<longrightarrow>
        (\<exists>t'. render e x 0 t = Some t' \<and>
           drop (length (leds t)) (leds t') = drop (length (leds s)) (leds s')))"
proof -
  have same: "palette_pixels e (heat t) x = palette_pixels e (heat s) x"
    if "\<forall>j. j < MATRIX_HEIGHT e \<longrightarrow> heat t x j = heat s x j" for t
    using that by (simp add: palette_pixels_def)
  have nth: "palette_pixels e (heat s) x ! j =
      (XY e x ((MATRIX_HEIGHT e - 1) - j), ColorFromPalette e (scale8 e (heat s x j) 160))"
    if "j < MATRIX_HEIGHT e" for j
    using that by (simp add: palette_pixels_def)
  have len: "length (palette_pixels e h x) = MATRIX_HEIGHT e" for h
    by (simp add: palette_pixels_def)
  have r: "render e x 0 t = Some (t\<lparr>leds := leds t @ palette_pixels e (heat t) x\<rparr>)" for t
    unfolding render_from [OF assms] palette_pixels_def ..
  show ?thesis
    unfolding r using same nth len by (auto simp add: nth_append)
qed

theorem render_palette_lookup_witness:
  "0 < MATRIX_WIDTH (test_env 1 3 150 60 (\<lambda>n. 7)) \<and>
   (\<exists>s'. render (test_env 1 3 150 60 (\<lambda>n. 7)) 0 0 test_state = Some s' \<and>
      leds s' = [(2, 125), (1, 62), (0, 31)]) \<and>
   heat (test_state\<lparr>leds := [(9, 9)], rand_pos := 5\<rparr>) 0 = heat test_state 0 \<and>
   (\<exists>t'. render (test_env 1 3 150 60 (\<lambda>n. 7)) 0 0 (test_state\<lparr>leds := [(9, 9)], rand_pos := 5\<rparr>)
           = Some t' \<and>
      leds t' = [(9, 9), (2, 125), (1, 62), (0, 31)])"
proof -
  let ?e = "test_env 1 3 150 60 (\<lambda>n. 7)"
  let ?t = "test_state\<lparr>leds := [(9, 9)], rand_pos := 5\<rparr>"
  have w: "0 < MATRIX_WIDTH ?e" by (simp add: test_env_def)
  have px: "palette_pixels ?e (heat test_state) 0 = [(2, 125), (1, 62), (0, 31)]"
    by (simp add: palette_pixels_def test_env_def test_state_def upt_conv_Cons)
  have same: "\<forall>j. j < MATRIX_HEIGHT ?e \<longrightarrow> heat ?t 0 j = heat test_state 0 j" by simp
  from render_palette_lookup [OF w, of test_state] obtain s' where
    r: "render ?e 0 0 test_state = Some s'"
    and l: "leds s' = leds test_state @ palette_pixels ?e (heat test_state) 0"
    and p: "\<forall>t. (\<forall>j. j < MATRIX_HEIGHT ?e \<longrightarrow> heat t 0 j = heat test_state 0 j) \<longrightarrow>
        (\<exists>t'. render ?e 0 0 t = Some t' \<and>
           drop (length (leds t)) (leds t') = drop (length (leds test_state)) (leds s'))"
    by blast
  from l px have l': "leds s' = [(2, 125), (1, 62), (0, 31)]" by (simp add: test_state_def)
  from p same obtain t' where
    rt: "render ?e 0 0 ?t = Some t'"
    and d: "drop (length (leds ?t)) (leds t') = drop (length (leds test_state)) (leds s')"
    by blast
  from render_palette_lookup [OF w, of ?t] rt have "leds t' = leds ?t @ palette_pixels ?e (heat ?t) 0"
    by auto
  then have "leds t' = [(9, 9), (2, 125), (1, 62), (0, 31)]" using px by simp
  with w r l' rt show ?thesis by simp
qed

subsection \<open>The whole frame\<close>

text \<open>
  C7, as the claim states it, fails for a matrix of 256 columns and 3 rows: every column
  step succeeds, but the byte counter never reaches \<open>MATRIX_WIDTH\<close>, so the function does
  not return.
\<close>

theorem Fire2012Rainbow_wide_matrix_never_returns:
  "Fire2012Rainbow (test_env 256 3 150 60 (\<lambda>n. 0)) test_state = None \<and>
   (\<forall>x t. column (test_env 256 3 150 60 (\<lambda>n. 0)) (unat (x :: byte)) t \<noteq> None)"
proof
  show "Fire2012Rainbow (test_env 256 3 150 60 (\<lambda>n. 0)) test_state = None"
    by (rule Fire2012Rainbow_wide) (simp add: test_env_def)
next
  let ?e = "test_env 256 3 150 60 (\<lambda>n. 0)"
  have h: "2 \<le> MATRIX_HEIGHT ?e" by (simp add: test_env_def)
  have "unat x < MATRIX_WIDTH ?e" for x :: byte
    using unat_byte_lt [of x] by (simp add: test_env_def)
  then show "\<forall>x t. column ?e (unat (x :: byte)) t \<noteq> None"
    using h by (simp add: column_eq)
qed

text \<open>
  C7, amended. For \<open>MATRIX_WIDTH \<le> 255\<close> and \<open>MATRIX_HEIGHT \<ge> 2\<close>, from every state and
  for every output of the generator, the function returns 15; it appends exactly
  \<open>MATRIX_WIDTH * MATRIX_HEIGHT\<close> pixel assignments, those of \<open>palette_pixels\<close> for the new
  heat, column after column; it changes no heat cell outside the
  \<open>MATRIX_WIDTH \<times> MATRIX_HEIGHT\<close> array; and over the frame it takes between
  \<open>MATRIX_WIDTH * (MATRIX_HEIGHT + 1)\<close> and \<open>MATRIX_WIDTH * (MATRIX_HEIGHT + 3)\<close> draws from
  the generator.
\<close>

theorem Fire2012Rainbow_effects:
  assumes "MATRIX_WIDTH e \<le> 255" and "2 \<le> MATRIX_HEIGHT e"
  shows "\<exists>s'. Fire2012Rainbow e s = Some (15, s') \<and>
     leds s' = leds s @ concat (map (palette_pixels e (heat s')) [0..<MATRIX_WIDTH e]) \<and>
     length (leds s') = length (leds s) + MATRIX_WIDTH e * MATRIX_HEIGHT e \<and>
     (\<forall>x y. \<not> (x < MATRIX_WIDTH e \<and> y < MATRIX_HEIGHT e) \<longrightarrow> heat s' x y = heat s x y) \<and>
     rand_pos s + MATRIX_WIDTH e * (MATRIX_HEIGHT e + 1) \<le> rand_pos s' \<and>
     rand_pos s' \<le> rand_pos s + MATRIX_WIDTH e * (MATRIX_HEIGHT e + 3)"
proof -
  let ?s' = "columns_done e (MATRIX_WIDTH e) s"
  have h: "2 \<le> MATRIX_HEIGHT e \<or> SPARKINGRainbow e = 0" using assms(2) by simp
  have 1: "Fire2012Rainbow e s = Some (15, ?s')" by (rule Fire2012Rainbow_eq [OF assms(1) h])
  have 2: "leds ?s' = leds s @ concat (map (palette_pixels e (heat ?s')) [0..<MATRIX_WIDTH e])"
    by (rule leds_columns_done)
  then have 3: "length (leds ?s') = length (leds s) + MATRIX_WIDTH e * MATRIX_HEIGHT e"
    using length_concat_pixels [of e "heat ?s'" "MATRIX_WIDTH e"] by simp
  have 4: "heat ?s' x y = heat s x y" if "\<not> (x < MATRIX_WIDTH e \<and> y < MATRIX_HEIGHT e)" for x y
  proof (cases "x < MATRIX_WIDTH e")
    case True
    with that have "MATRIX_HEIGHT e \<le> y" by simp
    then show ?thesis by (rule heat_columns_done_above [OF h])
  next
    case False
    then show ?thesis by (simp add: heat_columns_done_other)
  qed
  from 1 2 3 4 rand_pos_columns_done [of s "MATRIX_WIDTH e" e] show ?thesis by blast
qed

theorem Fire2012Rainbow_effects_witness:
  "MATRIX_WIDTH (test_env 1 3 150 60 (\<lambda>n. 7)) \<le> 255 \<and>
   2 \<le> MATRIX_HEIGHT (test_env 1 3 150 60 (\<lambda>n. 7)) \<and>
   (\<exists>s'. Fire2012Rainbow (test_env 1 3 150 60 (\<lambda>n. 7)) test_state = Some (15, s') \<and>
      length (leds s') = 3 \<and> heat s' 1 0 = 200 \<and> heat s' 0 3 = 0)"
proof -
  let ?e = "test_env 1 3 150 60 (\<lambda>n. 7)"
  have w: "MATRIX_WIDTH ?e \<le> 255" and h: "2 \<le> MATRIX_HEIGHT ?e"
    and m: "MATRIX_WIDTH ?e * MATRIX_HEIGHT ?e = 3"
    and o: "\<not> ((1::nat) < MATRIX_WIDTH ?e \<and> (0::nat) < MATRIX_HEIGHT ?e)"
      "\<not> ((0::nat) < MATRIX_WIDTH ?e \<and> (3::nat) < MATRIX_HEIGHT ?e)"
    by (simp_all add: test_env_def)
  from Fire2012Rainbow_effects [OF w h, of test_state] obtain s' where
    r: "Fire2012Rainbow ?e test_state = Some (15, s')"
    and l: "length (leds s') = length (leds test_state) + MATRIX_WIDTH ?e * MATRIX_HEIGHT ?e"
    and u: "\<forall>x y. \<not> (x < MATRIX_WIDTH ?e \<and> y < MATRIX_HEIGHT ?e) \<longrightarrow>
        heat s' x y = heat test_state x y"
    by blast
  from u o have "heat s' 1 0 = heat test_state 1 0" "heat s' 0 3 = heat test_state 0 3"
    by blast+
  then have "heat s' 1 0 = 200" "heat s' 0 3 = 0" by (simp_all add: test_state_def)
  moreover from l have "length (leds s') = 3" unfolding m by (simp add: test_state_def)
  ultimately show ?thesis using w h r by blast
qed

text \<open>
  C1. Starting from the zero array, any number of frames of a matrix with
  \<open>MATRIX_WIDTH \<le> 255\<close> and \<open>MATRIX_HEIGHT \<ge> 2\<close> runs to its end, and whenever the frames
  return, every cell lies in \<open>[0,255]\<close>. No step wraps, from any state: read as integers,
  the cooling loop leaves \<open>max 0 (old - draw)\<close> in every row of its column, the diffusion loop
  leaves in every row from 2 on the quotient by 3 of the sum of the old rows below, which is
  at most 255, the ignition step leaves \<open>min 255 (old + amount)\<close> in the one cell it changes,
  and none of them changes any other cell; the rendering loop changes no cell.
\<close>

theorem heat_never_wraps:
  "(MATRIX_WIDTH e \<le> 255 \<and> 2 \<le> MATRIX_HEIGHT e \<longrightarrow>
      (\<exists>s'. frames e n (s\<lparr>heat := zero_heat\<rparr>) = Some s')) \<and>
   (\<forall>s'. frames e n (s\<lparr>heat := zero_heat\<rparr>) = Some s' \<longrightarrow>
      (\<forall>x y. 0 \<le> uint (heat s' x y) \<and> uint (heat s' x y) \<le> 255)) \<and>
   (\<forall>x t. x < MATRIX_WIDTH e \<longrightarrow>
      (\<exists>t'. cool e x 0 t = Some t' \<and>
         (\<forall>i. i < MATRIX_HEIGHT e \<longrightarrow>
            uint (heat t' x i) =
              max 0 (uint (heat t x i) -
                uint (draw 0 (of_nat (cooling_lim e)) (entropy e (rand_pos t + i))))) \<and>
         (\<forall>x' y. x' \<noteq> x \<or> MATRIX_HEIGHT e \<le> y \<longrightarrow> heat t' x' y = heat t x' y))) \<and>
   (\<forall>x t. x < MATRIX_WIDTH e \<longrightarrow>
      (\<exists>t'. diffuse e x (int (MATRIX_HEIGHT e) - 1) t = Some t' \<and>
         (\<forall>k. 2 \<le> k \<and> k < MATRIX_HEIGHT e \<longrightarrow>
            uint (heat t' x k) =
              (uint (heat t x (k - 1)) + uint (heat t x (k - 2)) + uint (heat t x (k - 2))) div 3 \<and>
            (uint (heat t x (k - 1)) + uint (heat t x (k - 2)) + uint (heat t x (k - 2))) div 3
              \<le> 255) \<and>
         (\<forall>x' y. x' \<noteq> x \<or> y < 2 \<or> MATRIX_HEIGHT e \<le> y \<longrightarrow>
            heat t' x' y = heat t x' y))) \<and>
   (\<forall>x t. x < MATRIX_WIDTH e \<and> 2 \<le> MATRIX_HEIGHT e \<longrightarrow>
      (\<exists>t' r. ignite e x t = Some t' \<and> r < 2 \<and>
         (uint (heat t' x r) = uint (heat t x r) \<or>
          uint (heat t' x r) =
            min 255 (uint (heat t x r) + uint (draw 160 255 (entropy e (rand_pos t + 2))))) \<and>
         (\<forall>x' y. x' \<noteq> x \<or> y \<noteq> r \<longrightarrow> heat t' x' y = heat t x' y))) \<and>
   (\<forall>x j t t'. render e x j t = Some t' \<longrightarrow> heat t' = heat t)"
proof (intro conjI allI impI)
  assume "MATRIX_WIDTH e \<le> 255 \<and> 2 \<le> MATRIX_HEIGHT e"
  then show "\<exists>s'. frames e n (s\<lparr>heat := zero_heat\<rparr>) = Some s'"
    by (simp add: frames_eq)
next
  fix s' x y
  show "0 \<le> uint (heat s' x y)" by simp
  have "uint (heat s' x y) < 2 ^ LENGTH(8)" by (rule unsigned_less)
  then show "uint (heat s' x y) \<le> 255" by simp
next
  fix x and t :: "'a state"
  assume x: "x < MATRIX_WIDTH e"
  show "\<exists>t'. cool e x 0 t = Some t' \<and>
         (\<forall>i. i < MATRIX_HEIGHT e \<longrightarrow>
            uint (heat t' x i) =
              max 0 (uint (heat t x i) -
                uint (draw 0 (of_nat (cooling_lim e)) (entropy e (rand_pos t + i))))) \<and>
         (\<forall>x' y. x' \<noteq> x \<or> MATRIX_HEIGHT e \<le> y \<longrightarrow> heat t' x' y = heat t x' y)"
    unfolding cool_from [OF x] by (auto simp add: uint_qsub8)
next
  fix x and t :: "'a state"
  assume x: "x < MATRIX_WIDTH e"
  have lt: "int (MATRIX_HEIGHT e) - 1 < int (MATRIX_HEIGHT e)" by simp
  have b: "(uint a + uint b + uint b) div 3 \<le> 255" for a b :: byte
  proof -
    have "uint a < 2 ^ LENGTH(8)" "uint b < 2 ^ LENGTH(8)" by (rule unsigned_less)+
    then show ?thesis by simp
  qed
  show "\<exists>t'. diffuse e x (int (MATRIX_HEIGHT e) - 1) t = Some t' \<and>
         (\<forall>k. 2 \<le> k \<and> k < MATRIX_HEIGHT e \<longrightarrow>
            uint (heat t' x k) =
              (uint (heat t x (k - 1)) + uint (heat t x (k - 2)) + uint (heat t x (k - 2))) div 3 \<and>
            (uint (heat t x (k - 1)) + uint (heat t x (k - 2)) + uint (heat t x (k - 2))) div 3
              \<le> 255) \<and>
         (\<forall>x' y. x' \<noteq> x \<or> y < 2 \<or> MATRIX_HEIGHT e \<le> y \<longrightarrow>
            heat t' x' y = heat t x' y)"
    unfolding diffuse_from [OF x lt] using b by (auto simp add: uint_drift)
next
  fix x and t :: "'a state"
  assume a: "x < MATRIX_WIDTH e \<and> 2 \<le> MATRIX_HEIGHT e"
  then have x: "x < MATRIX_WIDTH e" and h: "2 \<le> MATRIX_HEIGHT e" by simp_all
  let ?r = "unat (draw 0 2 (entropy e (rand_pos t + 1)))"
  have r: "?r < 2" by (rule draw_row)
  show "\<exists>t' r. ignite e x t = Some t' \<and> r < 2 \<and>
         (uint (heat t' x r) = uint (heat t x r) \<or>
          uint (heat t' x r) =
            min 255 (uint (heat t x r) + uint (draw 160 255 (entropy e (rand_pos t + 2))))) \<and>
         (\<forall>x' y. x' \<noteq> x \<or> y \<noteq> r \<longrightarrow> heat t' x' y = heat t x' y)"
  proof (cases "unat (draw 0 255 (entropy e (rand_pos t))) < SPARKINGRainbow e")
    case True
    let ?t' = "t\<lparr>rand_pos := rand_pos t + 3,
               heat := (heat t)(x := (heat t x)
                 (?r := qadd8 (heat t x ?r) (draw 160 255 (entropy e (rand_pos t + 2)))))\<rparr>"
    from True have i: "ignite e x t = Some ?t'" unfolding ignite_eq [OF x h] by simp
    have v: "uint (heat ?t' x ?r) =
        min 255 (uint (heat t x ?r) + uint (draw 160 255 (entropy e (rand_pos t + 2))))"
      by (simp add: uint_qadd8)
    have o: "\<forall>x' y. x' \<noteq> x \<or> y \<noteq> ?r \<longrightarrow> heat ?t' x' y = heat t x' y"
      by auto
    from i r v o show ?thesis by blast
  next
    case False
    let ?t' = "t\<lparr>rand_pos := rand_pos t + 1\<rparr>"
    from False have i: "ignite e x t = Some ?t'" unfolding ignite_eq [OF x h] by simp
    have "uint (heat ?t' x ?r) = uint (heat t x ?r)"
      and "\<forall>x' y. x' \<noteq> x \<or> y \<noteq> ?r \<longrightarrow> heat ?t' x' y = heat t x' y"
      by simp_all
    with i r show ?thesis by blast
  qed
next
  fix x j and t t' :: "'a state"
  assume "render e x j t = Some t'"
  then show "heat t' = heat t" by (rule render_heat)
qed

theorem heat_never_wraps_witness:
  "(MATRIX_WIDTH (test_env 1 3 150 60 (\<lambda>n. 7)) \<le> 255 \<and>
    2 \<le> MATRIX_HEIGHT (test_env 1 3 150 60 (\<lambda>n. 7))) \<and>
   (\<exists>s'. frames (test_env 1 3 150 60 (\<lambda>n. 7)) 2 (test_state\<lparr>heat := zero_heat\<rparr>) = Some s') \<and>
   (0::nat) < MATRIX_WIDTH (test_env 1 3 150 60 (\<lambda>n. 7)) \<and>
   (\<exists>t'. diffuse (test_env 1 3 150 60 (\<lambda>n. 7)) 0 2 test_state = Some t' \<and>
      uint (heat t' 0 2) = 166)"
proof -
  let ?e = "test_env 1 3 150 60 (\<lambda>n. 7)"
  have a: "MATRIX_WIDTH ?e \<le> 255 \<and> 2 \<le> MATRIX_HEIGHT ?e" and x: "(0::nat) < MATRIX_WIDTH ?e"
    and k: "2 \<le> (2::nat) \<and> 2 < MATRIX_HEIGHT ?e" and h: "int (MATRIX_HEIGHT ?e) - 1 = 2"
    by (simp_all add: test_env_def)
  note T = heat_never_wraps [of ?e 2 test_state]
  from T [THEN conjunct1] a
  have f: "\<exists>s'. frames ?e 2 (test_state\<lparr>heat := zero_heat\<rparr>) = Some s'"
    by blast
  note D = T [THEN conjunct2, THEN conjunct2, THEN conjunct2, THEN conjunct1, rule_format,
    OF x, of test_state]
  from D obtain t' where d: "diffuse ?e 0 (int (MATRIX_HEIGHT ?e) - 1) test_state = Some t'"
    and v: "\<forall>k. 2 \<le> k \<and> k < MATRIX_HEIGHT ?e \<longrightarrow>
            uint (heat t' 0 k) =
              (uint (heat test_state 0 (k - 1)) + uint (heat test_state 0 (k - 2))
                + uint (heat test_state 0 (k - 2))) div 3"
    by blast
  from v k have "uint (heat t' 0 2) =
              (uint (heat test_state 0 (2 - 1)) + uint (heat test_state 0 (2 - 2))
                + uint (heat test_state 0 (2 - 2))) div 3"
    by blast
  then have "uint (heat t' 0 2) = 166" by (simp add: test_state_def)
  with d have "\<exists>t'. diffuse ?e 0 2 test_state = Some t' \<and> uint (heat t' 0 2) = 166"
    unfolding h by blast
  with a f x show ?thesis by blast
qed

subsection \<open>No sparks\<close>

lemma drifted_decay:
  assumes bound: "\<forall>y. y < MATRIX_HEIGHT e \<longrightarrow> unat (heat t x y) \<le> M"
    and draws: "\<forall>y. y < MATRIX_HEIGHT e \<longrightarrow>
        1 \<le> unat (draw 0 (of_nat (cooling_lim e)) (entropy e (rand_pos t + y)))"
    and y: "y < MATRIX_HEIGHT e"
  shows "unat (drifted e t x y) \<le> M - 1"
proof -
  have c: "unat (cooled e t x z) \<le> M - 1" if "z < MATRIX_HEIGHT e" for z
  proof -
    from that bound draws have "unat (heat t x z) \<le> M"
      and "1 \<le> unat (draw 0 (of_nat (cooling_lim e)) (entropy e (rand_pos t + z)))" by simp_all
    then show ?thesis unfolding cooled_def unat_qsub8 by arith
  qed
  show ?thesis
  proof (cases "2 \<le> y")
    case True
    with y have "y - 1 < MATRIX_HEIGHT e" "y - 2 < MATRIX_HEIGHT e" by simp_all
    then have "unat (cooled e t x (y - 1)) \<le> M - 1" "unat (cooled e t x (y - 2)) \<le> M - 1"
      by (simp_all only: c)
    then have "(unat (cooled e t x (y - 1)) + unat (cooled e t x (y - 2))
        + unat (cooled e t x (y - 2))) div 3 \<le> M - 1"
      by arith
    with True y show ?thesis by (simp only: drifted_def unat_drift if_True)
  next
    case False
    with y c [OF y] show ?thesis by (simp only: drifted_def if_True if_False)
  qed
qed

lemma columns_done_decay:
  assumes sp: "SPARKINGRainbow e = 0"
    and bound: "\<forall>x y. x < MATRIX_WIDTH e \<and> y < MATRIX_HEIGHT e \<longrightarrow> unat (heat s x y) \<le> M"
    and draws: "\<forall>x y. x < MATRIX_WIDTH e \<and> y < MATRIX_HEIGHT e \<longrightarrow>
        1 \<le> unat (draw 0 (of_nat (cooling_lim e)) (entropy e (rand_pos s + x * (MATRIX_HEIGHT e + 1) + y)))"
  shows "n \<le> MATRIX_WIDTH e \<Longrightarrow>
    \<forall>x y. x < n \<and> y < MATRIX_HEIGHT e \<longrightarrow> unat (heat (columns_done e n s) x y) \<le> M - 1"
proof (induction n)
  case 0
  show ?case by simp
next
  case (Suc n)
  let ?t = "columns_done e n s"
  from Suc.prems have n: "n < MATRIX_WIDTH e" by simp
  have IH: "\<forall>x y. x < n \<and> y < MATRIX_HEIGHT e \<longrightarrow> unat (heat ?t x y) \<le> M - 1"
    using Suc by simp
  have hn: "heat ?t n = heat s n" by (simp add: heat_columns_done_other)
  have pn: "rand_pos ?t = rand_pos s + n * (MATRIX_HEIGHT e + 1)"
    by (rule rand_pos_columns_done_0 [OF sp])
  have b: "\<forall>y. y < MATRIX_HEIGHT e \<longrightarrow> unat (heat ?t n y) \<le> M"
    using bound n unfolding hn by simp
  have d: "\<forall>y. y < MATRIX_HEIGHT e \<longrightarrow>
        1 \<le> unat (draw 0 (of_nat (cooling_lim e)) (entropy e (rand_pos ?t + y)))"
    using draws n unfolding pn by simp
  have new: "unat (sparked e ?t n y) \<le> M - 1" if "y < MATRIX_HEIGHT e" for y
    using drifted_decay [OF b d that] spark_taken_off [OF sp, of ?t] by (simp add: sparked_def)
  show ?case
  proof (intro allI impI)
    fix x y
    assume a: "x < Suc n \<and> y < MATRIX_HEIGHT e"
    show "unat (heat (columns_done e (Suc n) s) x y) \<le> M - 1"
    proof (cases "x = n")
      case True
      with a new show ?thesis by simp
    next
      case False
      with a have "x < n \<and> y < MATRIX_HEIGHT e" by simp
      with IH have "unat (heat ?t x y) \<le> M - 1" by blast
      with False show ?thesis by simp
    qed
  qed
qed

lemma frames_done_decay:
  assumes sp: "SPARKINGRainbow e = 0"
  shows "\<forall>x y. x < MATRIX_WIDTH e \<and> y < MATRIX_HEIGHT e \<longrightarrow> unat (heat s x y) \<le> M \<Longrightarrow>
     \<forall>c y. y < MATRIX_HEIGHT e \<longrightarrow>
        1 \<le> unat (draw 0 (of_nat (cooling_lim e)) (entropy e (rand_pos s + c * (MATRIX_HEIGHT e + 1) + y))) \<Longrightarrow>
     \<forall>x y. x < MATRIX_WIDTH e \<and> y < MATRIX_HEIGHT e \<longrightarrow>
        unat (heat (frames_done e n s) x y) \<le> M - n"
proof (induction n arbitrary: s M)
  case 0
  then show ?case by simp
next
  case (Suc n)
  let ?t = "columns_done e (MATRIX_WIDTH e) s"
  have d1: "\<forall>x y. x < MATRIX_WIDTH e \<and> y < MATRIX_HEIGHT e \<longrightarrow>
        1 \<le> unat (draw 0 (of_nat (cooling_lim e)) (entropy e (rand_pos s + x * (MATRIX_HEIGHT e + 1) + y)))"
    using Suc.prems(2) by simp
  have b: "\<forall>x y. x < MATRIX_WIDTH e \<and> y < MATRIX_HEIGHT e \<longrightarrow> unat (heat ?t x y) \<le> M - 1"
    by (rule columns_done_decay [OF sp Suc.prems(1) d1 order_refl])
  have p: "rand_pos ?t = rand_pos s + MATRIX_WIDTH e * (MATRIX_HEIGHT e + 1)"
    by (rule rand_pos_columns_done_0 [OF sp])
  have d: "\<forall>c y. y < MATRIX_HEIGHT e \<longrightarrow>
        1 \<le> unat (draw 0 (of_nat (cooling_lim e)) (entropy e (rand_pos ?t + c * (MATRIX_HEIGHT e + 1) + y)))"
  proof (intro allI impI)
    fix c y
    assume "y < MATRIX_HEIGHT e"
    with Suc.prems(2) have g: "1 \<le> unat (draw 0 (of_nat (cooling_lim e))
        (entropy e (rand_pos s + (MATRIX_WIDTH e + c) * (MATRIX_HEIGHT e + 1) + y)))"
      by blast
    have q: "rand_pos s + (MATRIX_WIDTH e + c) * (MATRIX_HEIGHT e + 1) + y =
        rand_pos ?t + c * (MATRIX_HEIGHT e + 1) + y"
      unfolding p by (simp add: algebra_simps)
    from g show "1 \<le> unat (draw 0 (of_nat (cooling_lim e))
        (entropy e (rand_pos ?t + c * (MATRIX_HEIGHT e + 1) + y)))"
      unfolding q .
  qed
  from Suc.IH [OF b d] show ?case by simp
qed

lemma columns_done_row0_frozen:
  assumes "SPARKINGRainbow e = 0" and "\<forall>p. draw 0 (of_nat (cooling_lim e)) (entropy e p) = 0"
    and "0 < MATRIX_HEIGHT e"
  shows "heat (columns_done e n s) x 0 = heat s x 0"
proof (induction n arbitrary: x)
  case 0
  show ?case by simp
next
  case (Suc n)
  let ?t = "columns_done e n s"
  have "sparked e ?t n 0 = heat ?t n 0"
    using assms spark_taken_off [of e ?t]
    by (simp add: sparked_def drifted_def cooled_def qsub8_zero)
  with Suc show ?case by simp
qed

lemma frames_done_row0_frozen:
  assumes "SPARKINGRainbow e = 0" and "\<forall>p. draw 0 (of_nat (cooling_lim e)) (entropy e p) = 0"
    and "0 < MATRIX_HEIGHT e"
  shows "heat (frames_done e n s) x 0 = heat s x 0"
  by (induction n arbitrary: s) (simp_all add: columns_done_row0_frozen [OF assms])

text \<open>
  C9, as the claim states it, fails: cooling draws may all be 0, and then the bottom cell
  of the concrete matrix keeps its heat 200 through any number of frames.
\<close>

theorem zero_draws_never_extinguish:
  "\<not> (\<exists>n s'. frames (test_env 1 3 0 0 (\<lambda>n. 0)) n test_state = Some s' \<and>
        (\<forall>x y. x < MATRIX_WIDTH (test_env 1 3 0 0 (\<lambda>n. 0)) \<and>
               y < MATRIX_HEIGHT (test_env 1 3 0 0 (\<lambda>n. 0)) \<longrightarrow> heat s' x y = 0))"
proof
  let ?e = "test_env 1 3 0 0 (\<lambda>n. 0)"
  assume "\<exists>n s'. frames ?e n test_state = Some s' \<and>
        (\<forall>x y. x < MATRIX_WIDTH ?e \<and> y < MATRIX_HEIGHT ?e \<longrightarrow> heat s' x y = 0)"
  then obtain n s' where f: "frames ?e n test_state = Some s'"
    and z: "\<forall>x y. x < MATRIX_WIDTH ?e \<and> y < MATRIX_HEIGHT ?e \<longrightarrow> heat s' x y = 0"
    by blast
  have a: "SPARKINGRainbow ?e = 0" "\<forall>p. draw 0 (of_nat (cooling_lim ?e)) (entropy ?e p) = 0"
    "0 < MATRIX_HEIGHT ?e"
    and w: "MATRIX_WIDTH ?e \<le> 255" and h: "2 \<le> MATRIX_HEIGHT ?e \<or> SPARKINGRainbow ?e = 0"
    and d: "(0::nat) < MATRIX_WIDTH ?e \<and> (0::nat) < MATRIX_HEIGHT ?e"
    by (simp_all add: test_env_def draw_def)
  from f have "s' = frames_done ?e n test_state"
    unfolding frames_eq [OF w h] by simp
  then have "heat s' 0 0 = heat test_state 0 0"
    by (simp only: frames_done_row0_frozen [OF a])
  then have "heat s' 0 0 = 200" by (simp add: test_state_def)
  moreover from z d have "heat s' 0 0 = 0" by blast
  ultimately show False by simp
qed

text \<open>
  C9, amended. When \<open>SPARKINGRainbow = 0\<close>, the ignition step changes no cell. For
  \<open>MATRIX_WIDTH \<le> 255\<close>, from every state, if every cooling draw is at least 1, then after
  \<open>n\<close> frames every cell of the array is at most \<open>255 - n\<close>, and after 255 frames the array is
  all zero. The cooling draws of the \<open>c\<close>-th column processed since the start are the draws
  \<open>c * (MATRIX_HEIGHT + 1) + y\<close> for \<open>y < MATRIX_HEIGHT\<close>.
\<close>

theorem sparking_0_decay:
  assumes "SPARKINGRainbow e = 0" and "MATRIX_WIDTH e \<le> 255"
    and "\<forall>c y. y < MATRIX_HEIGHT e \<longrightarrow>
        1 \<le> unat (draw 0 (of_nat (cooling_lim e)) (entropy e (rand_pos s + c * (MATRIX_HEIGHT e + 1) + y)))"
  shows "(\<forall>x t. ignite e x t = Some (t\<lparr>rand_pos := rand_pos t + 1\<rparr>)) \<and>
     (\<forall>n. \<exists>s'. frames e n s = Some s' \<and>
        (\<forall>x y. x < MATRIX_WIDTH e \<and> y < MATRIX_HEIGHT e \<longrightarrow> unat (heat s' x y) \<le> 255 - n)) \<and>
     (\<exists>s'. frames e 255 s = Some s' \<and>
        (\<forall>x y. x < MATRIX_WIDTH e \<and> y < MATRIX_HEIGHT e \<longrightarrow> heat s' x y = 0))"
proof -
  have i: "ignite e x t = Some (t\<lparr>rand_pos := rand_pos t + 1\<rparr>)" for x and t :: "'a state"
    using assms(1) by (intro ignite_off) simp
  have h: "2 \<le> MATRIX_HEIGHT e \<or> SPARKINGRainbow e = 0" using assms(1) by simp
  have b: "\<forall>x y. x < MATRIX_WIDTH e \<and> y < MATRIX_HEIGHT e \<longrightarrow> unat (heat s x y) \<le> 255"
    using unat_byte_lt by (simp add: less_Suc_eq_le [symmetric])
  have f: "\<exists>s'. frames e n s = Some s' \<and>
        (\<forall>x y. x < MATRIX_WIDTH e \<and> y < MATRIX_HEIGHT e \<longrightarrow> unat (heat s' x y) \<le> 255 - n)" for n
    using frames_eq [OF assms(2) h, of n s] frames_done_decay [OF assms(1) b assms(3), of n]
    by blast
  from f [of 255] have "\<exists>s'. frames e 255 s = Some s' \<and>
        (\<forall>x y. x < MATRIX_WIDTH e \<and> y < MATRIX_HEIGHT e \<longrightarrow> heat s' x y = 0)"
    by (simp add: unat_eq_0)
  with i f show ?thesis by blast
qed

theorem sparking_0_decay_witness:
  "SPARKINGRainbow (test_env 1 3 0 0 (\<lambda>n. 1)) = 0 \<and> MATRIX_WIDTH (test_env 1 3 0 0 (\<lambda>n. 1)) \<le> 255 \<and>
   draw 0 (of_nat (cooling_lim (test_env 1 3 0 0 (\<lambda>n. 1)))) 1 = 1 \<and>
   (\<exists>s'. frames (test_env 1 3 0 0 (\<lambda>n. 1)) 255 test_state = Some s' \<and>
      heat s' 0 0 = 0 \<and> heat s' 0 1 = 0 \<and> heat s' 0 2 = 0)"
proof -
  let ?e = "test_env 1 3 0 0 (\<lambda>n. 1)"
  have a: "SPARKINGRainbow ?e = 0" "MATRIX_WIDTH ?e \<le> 255"
    "\<forall>c y. y < MATRIX_HEIGHT ?e \<longrightarrow>
      1 \<le> unat (draw 0 (of_nat (cooling_lim ?e)) (entropy ?e (rand_pos test_state + c * (MATRIX_HEIGHT ?e + 1) + y)))"
    by (simp_all add: test_env_def cooling_lim_def draw_def)
  have d: "(0::nat) < MATRIX_WIDTH ?e \<and> (0::nat) < MATRIX_HEIGHT ?e"
    "(0::nat) < MATRIX_WIDTH ?e \<and> (1::nat) < MATRIX_HEIGHT ?e"
    "(0::nat) < MATRIX_WIDTH ?e \<and> (2::nat) < MATRIX_HEIGHT ?e"
    by (simp_all add: test_env_def)
  from sparking_0_decay [OF a] obtain s' where
    f: "frames ?e 255 test_state = Some s'"
    and z: "\<forall>x y. x < MATRIX_WIDTH ?e \<and> y < MATRIX_HEIGHT ?e \<longrightarrow> heat s' x y = 0"
    by blast
  from z d have "heat s' 0 0 = 0" "heat s' 0 1 = 0" "heat s' 0 2 = 0" by blast+
  moreover have "draw 0 (of_nat (cooling_lim ?e)) 1 = 1" by (simp add: test_env_def cooling_lim_def draw_def)
  ultimately show ?thesis using f a(1,2) by blast
qed

subsection \<open>The 1 by 3 matrix\<close>

lemma small_grid_row2:
  assumes "MATRIX_WIDTH e = 1" "MATRIX_HEIGHT e = 3"
  shows "Fire2012Rainbow e s = Some (15, columns_done e 1 s) \<and>
     heat (columns_done e 1 s) 0 2 =
       drift (cooled e s 0 1) (cooled e s 0 0) (cooled e s 0 0)"
proof -
  have w: "MATRIX_WIDTH e \<le> 255" and h: "2 \<le> MATRIX_HEIGHT e \<or> SPARKINGRainbow e = 0"
    using assms by simp_all
  have "spark_row e s < 2" using draw_row by (simp add: spark_row_def)
  then have "sparked e s 0 2 = drifted e s 0 2" by (auto simp add: sparked_def)
  then have "heat (columns_done e 1 s) 0 2 =
       drift (cooled e s 0 1) (cooled e s 0 0) (cooled e s 0 0)"
    using assms(2) by (simp add: drifted_def)
  with Fire2012Rainbow_eq [OF w h, of s] assms(1) show ?thesis by simp
qed

text \<open>
  C10, as the claim states it, fails: with cooling draws of 0 the frame leaves 166 in
  \<open>heat[0][2]\<close>, not 66. The diffusion reads rows 1 and 0, which hold 100 and 200.
\<close>

theorem top_row_of_small_grid_is_166:
  "map_option (\<lambda>(d, s'). unat (heat s' 0 2))
     (Fire2012Rainbow (test_env 1 3 0 60 (\<lambda>n. 0)) test_state) = Some 166"
proof -
  let ?e = "test_env 1 3 0 60 (\<lambda>n. 0)"
  have a: "MATRIX_WIDTH ?e = 1" "MATRIX_HEIGHT ?e = 3" by (simp_all add: test_env_def)
  have c: "unat (cooled ?e test_state 0 0) = 200" "unat (cooled ?e test_state 0 1) = 100"
    by (simp_all add: cooled_def unat_qsub8 test_env_def test_state_def cooling_lim_def draw_def)
  have af: "Fire2012Rainbow ?e test_state = Some (15, columns_done ?e 1 test_state)"
    by (rule small_grid_row2 [OF a, THEN conjunct1])
  have n: "(100 + 200 + 200) div 3 = (166::nat)" by simp
  have v: "unat (heat (columns_done ?e 1 test_state) 0 2) = 166"
    by (simp only: small_grid_row2 [OF a, of test_state, THEN conjunct2] unat_drift c n)
  show ?thesis
    unfolding af option.map prod.case v ..
qed

text \<open>
  C10, amended. For the 1 by 3 matrix with heat 200, 100, 50 from the bottom and
  \<open>COOLINGRainbow = 0\<close>, every cooling draw is 0 or 1, and one frame leaves
  \<open>((100 - d1) + (200 - d0) + (200 - d0)) div 3\<close> in \<open>heat[0][2]\<close>, where \<open>d0\<close> and \<open>d1\<close> are
  the cooling draws of rows 0 and 1: that is 166, or 165 when both draws are 1.
\<close>

theorem small_grid_top_row:
  assumes "MATRIX_WIDTH e = 1" and "MATRIX_HEIGHT e = 3" and "COOLINGRainbow e = 0"
    and "heat s 0 0 = 200" and "heat s 0 1 = 100" and "heat s 0 2 = 50"
    and "d0 = unat (draw 0 (of_nat (cooling_lim e)) (entropy e (rand_pos s)))"
    and "d1 = unat (draw 0 (of_nat (cooling_lim e)) (entropy e (rand_pos s + 1)))"
  shows "cooling_lim e = 2 \<and> d0 < 2 \<and> d1 < 2 \<and>
     (\<exists>s'. Fire2012Rainbow e s = Some (15, s') \<and>
        unat (heat s' 0 2) = ((100 - d1) + (200 - d0) + (200 - d0)) div 3 \<and>
        unat (heat s' 0 2) = (if d0 = 1 \<and> d1 = 1 then 165 else 166))"
proof -
  have lim: "cooling_lim e = 2" using assms(2,3) by (simp add: cooling_lim_def)
  have d: "d0 < 2" "d1 < 2" using assms(7,8) draw_row unfolding lim by simp_all
  have c0: "unat (cooled e s 0 0) = 200 - d0" and c1: "unat (cooled e s 0 1) = 100 - d1"
    using assms(4,5,7,8) by (simp_all add: cooled_def unat_qsub8)
  have u: "unat (heat (columns_done e 1 s) 0 2) = ((100 - d1) + (200 - d0) + (200 - d0)) div 3"
    by (simp only: small_grid_row2 [OF assms(1,2), of s, THEN conjunct2] unat_drift c0 c1)
  have "((100 - d1) + (200 - d0) + (200 - d0)) div 3 = (if d0 = 1 \<and> d1 = 1 then 165 else 166)"
    using d by (cases "d0 = 0"; cases "d1 = 0") (auto simp add: less_2_cases_iff)
  with u lim d small_grid_row2 [OF assms(1,2), of s] show ?thesis by auto
qed

theorem small_grid_top_row_witness:
  "MATRIX_WIDTH (test_env 1 3 0 60 (\<lambda>n. 1)) = 1 \<and> MATRIX_HEIGHT (test_env 1 3 0 60 (\<lambda>n. 1)) = 3 \<and>
   COOLINGRainbow (test_env 1 3 0 60 (\<lambda>n. 1)) = 0 \<and>
   heat test_state 0 0 = 200 \<and> heat test_state 0 1 = 100 \<and> heat test_state 0 2 = 50 \<and>
   (1::nat) = unat (draw 0 (of_nat (cooling_lim (test_env 1 3 0 60 (\<lambda>n. 1))))
                (entropy (test_env 1 3 0 60 (\<lambda>n. 1)) (rand_pos test_state))) \<and>
   (1::nat) = unat (draw 0 (of_nat (cooling_lim (test_env 1 3 0 60 (\<lambda>n. 1))))
                (entropy (test_env 1 3 0 60 (\<lambda>n. 1)) (rand_pos test_state + 1))) \<and>
   (\<exists>s'. Fire2012Rainbow (test_env 1 3 0 60 (\<lambda>n. 1)) test_state = Some (15, s') \<and>
      unat (heat s' 0 2) = 165)"
proof -
  let ?e = "test_env 1 3 0 60 (\<lambda>n. 1)"
  have a: "MATRIX_WIDTH ?e = 1" "MATRIX_HEIGHT ?e = 3" "COOLINGRainbow ?e = 0"
    "heat test_state 0 0 = 200" "heat test_state 0 1 = 100" "heat test_state 0 2 = 50"
    "(1::nat) = unat (draw 0 (of_nat (cooling_lim ?e)) (entropy ?e (rand_pos test_state)))"
    "(1::nat) = unat (draw 0 (of_nat (cooling_lim ?e)) (entropy ?e (rand_pos test_state + 1)))"
    by (simp_all add: test_env_def test_state_def cooling_lim_def draw_def)
  from small_grid_top_row [OF a] have
    "\<exists>s'. Fire2012Rainbow ?e test_state = Some (15, s') \<and> unat (heat s' 0 2) = 165"
    by auto
  with a show ?thesis by blast
qed

end
